theory Spec2Isabelle
  imports Main
begin

section \<open>Go values used by the pod security policy template handler\<close>

text \<open>
  The handler of \<^verbatim>\<open>pkg/controllers/user/rbac/podsecuritypolicy/template.go\<close>
  works on pointers to API objects held by an informer cache, calls two store clients and
  two cache indexers, and returns a pair of an object and an error.  The embedding keeps
  these parts apart:
  \<^item> API objects live in a heap that maps addresses to structs; a Go \<^verbatim>\<open>map[string]string\<close>
    is a heap object of its own, referenced from the struct, and the nil map is the
    reference \<open>None\<close>;
  \<^item> an address that holds no struct stands for the nil pointer: dereferencing it panics;
  \<^item> a Go \<^verbatim>\<open>error\<close> is a value of the datatype \<open>error\<close>, and \<^verbatim>\<open>fmt.Errorf(format, err)\<close>
    is the constructor \<open>Errorf format err\<close>;
  \<^item> a run-time panic is the outcome \<open>Panic\<close>, an ordinary return is \<open>Return\<close>.
\<close>

type_synonym addr = nat

datatype error =
    NotFound
  | Conflict
  | Failure string
  | Errorf string error

datatype panic = NilDereference | NilMapAssignment | TypeAssertion

datatype 'a outcome = Panic panic | Return 'a

text \<open>
  \<^verbatim>\<open>ObjectMeta\<close> is embedded in every API object.  The type parameter is the representation
  of the annotations: a reference into the heap (\<open>addr option\<close>) for a struct in memory, the
  contents of the map (\<open>(string \<rightharpoonup> string) option\<close>) for an object sent to a collaborator.
\<close>

record 'ann ObjectMeta =
  Name :: string
  Namespace :: string
  ResourceVersion :: string
  Annotations :: 'ann

record ('ann, 'spec) PodSecurityPolicy = "'ann ObjectMeta" +
  PolicySpec :: 'spec

record ('ann, 'spec) PodSecurityPolicyTemplate = "'ann ObjectMeta" +
  Description :: string
  Spec :: 'spec

type_synonym 'spec policy_struct = "(addr option, 'spec) PodSecurityPolicy"
type_synonym 'spec policy_value = "((string \<rightharpoonup> string) option, 'spec) PodSecurityPolicy"
type_synonym role_struct = "(addr option) ObjectMeta"
type_synonym 'spec template = "((string \<rightharpoonup> string) option, 'spec) PodSecurityPolicyTemplate"

text \<open>
  The heap.  \<open>policiesH\<close> holds the \<^verbatim>\<open>*PodSecurityPolicy\<close> objects, \<open>rolesH\<close> the
  \<^verbatim>\<open>*ClusterRole\<close> objects (only their embedded \<^verbatim>\<open>ObjectMeta\<close> is read by this file),
  \<open>mapsH\<close> the contents of the annotation maps.  \<open>nextAddr\<close> is the allocation pointer:
  a new object takes the address \<open>nextAddr\<close>.
\<close>

record 'spec heap =
  policiesH :: "addr \<rightharpoonup> 'spec policy_struct"
  rolesH :: "addr \<rightharpoonup> role_struct"
  mapsH :: "addr \<Rightarrow> (string \<rightharpoonup> string)"
  nextAddr :: addr

text \<open>A value of type \<^verbatim>\<open>interface{}\<close>: its dynamic type and, for the two pointer types, the address.\<close>

datatype iface = PolicyPtr addr | ClusterRolePtr addr | OtherValue

text \<open>Reading \<^verbatim>\<open>m[k]\<close>: the zero value \<^verbatim>\<open>""\<close> for the nil map and for a missing key.\<close>

definition mapIndex :: "(addr \<Rightarrow> (string \<rightharpoonup> string)) \<Rightarrow> addr option \<Rightarrow> string \<Rightarrow> string" where
  "mapIndex mh r k =
     (case r of
        None \<Rightarrow> ''''
      | Some m \<Rightarrow> (case mh m k of None \<Rightarrow> '''' | Some v \<Rightarrow> v))"

text \<open>
  The generated \<^verbatim>\<open>DeepCopy\<close> of a policy: a new struct with the same fields; a non-nil
  annotations map is copied into a new map, a nil map stays nil.
\<close>

definition DeepCopy :: "'spec policy_struct \<Rightarrow> 'spec heap \<Rightarrow> addr \<times> 'spec heap" where
  "DeepCopy p h =
     (case Annotations p of
        None \<Rightarrow>
          (nextAddr h,
           h\<lparr>policiesH := (policiesH h)(nextAddr h \<mapsto> p), nextAddr := nextAddr h + 1\<rparr>)
      | Some m \<Rightarrow>
          (nextAddr h + 1,
           h\<lparr>mapsH := (mapsH h)(nextAddr h := mapsH h m),
             policiesH := (policiesH h)(nextAddr h + 1 \<mapsto> p\<lparr>Annotations := Some (nextAddr h)\<rparr>),
             nextAddr := nextAddr h + 2\<rparr>))"

text \<open>The object a pointer refers to, as a collaborator receiving the pointer reads it.\<close>

definition snapshot :: "'spec heap \<Rightarrow> 'spec policy_struct \<Rightarrow> 'spec policy_value" where
  "snapshot h p =
     \<lparr>Name = Name p, Namespace = Namespace p, ResourceVersion = ResourceVersion p,
      Annotations = map_option (mapsH h) (Annotations p), PolicySpec = PolicySpec p\<rparr>"

section \<open>Collaborators\<close>

text \<open>
  The \<^verbatim>\<open>Lifecycle\<close> struct holds interfaces of other packages.  Each method the handler
  calls is a field of the record: a function of the state \<open>'w\<close> of everything outside the
  handler (object store and informer caches).  A store call returns its error (\<open>None\<close> is
  \<^verbatim>\<open>nil\<close>) and the new outside state; an index lookup reads the outside state.  The two
  listers of the struct are never called.
\<close>

record ('spec, 'w) Lifecycle =
  policies_Update :: "'spec policy_value \<Rightarrow> 'w \<Rightarrow> error option \<times> 'w"
  policies_Delete :: "string \<Rightarrow> 'w \<Rightarrow> error option \<times> 'w"
  clusterRoles_DeleteNamespaced :: "string \<Rightarrow> string \<Rightarrow> 'w \<Rightarrow> error option \<times> 'w"
  policyIndexer_ByIndex :: "string \<Rightarrow> string \<Rightarrow> 'w \<Rightarrow> iface list \<times> error option"
  clusterRoleIndexer_ByIndex :: "string \<Rightarrow> string \<Rightarrow> 'w \<Rightarrow> iface list \<times> error option"

text \<open>The calls made on the collaborators, recorded in the order they are issued.\<close>

datatype 'spec call =
    PolicyByIndex string string
  | ClusterRoleByIndex string string
  | Update "'spec policy_value"
  | Delete string
  | DeleteNamespaced string string

record ('spec, 'w) state =
  mem :: "'spec heap"
  world :: 'w
  calls :: "'spec call list"

definition policyByPSPTParentAnnotationIndex :: string where
  "policyByPSPTParentAnnotationIndex = ''podsecuritypolicy.rbac.user.cattle.io/parent-annotation''"

definition clusterRoleByPSPTNameIndex :: string where
  "clusterRoleByPSPTNameIndex = ''podsecuritypolicy.rbac.user.cattle.io/pspt-name''"

section \<open>The index functions\<close>

text \<open>
  The annotation keys \<^verbatim>\<open>podSecurityPolicyTemplateParentAnnotation\<close> and
  \<^verbatim>\<open>podSecurityPolicyTemplateVersionAnnotation\<close> are constants of the package declared in
  another file; they are the parameters \<open>pa\<close> and \<open>va\<close> of the functions below.
\<close>

definition policyByPSPTParentAnnotation ::
  "string \<Rightarrow> 'spec heap \<Rightarrow> iface \<Rightarrow> (string list \<times> error option) outcome" where
  "policyByPSPTParentAnnotation pa h obj =
     (case obj of
        PolicyPtr a \<Rightarrow>
          (case policiesH h a of
             None \<Rightarrow> Panic NilDereference
           | Some policy \<Rightarrow>
               if mapIndex (mapsH h) (Annotations policy) pa = '''' then Return ([], None)
               else Return ([mapIndex (mapsH h) (Annotations policy) pa], None))
      | _ \<Rightarrow> Return ([], None))"

definition clusterRoleByPSPTName ::
  "string \<Rightarrow> 'spec heap \<Rightarrow> iface \<Rightarrow> (string list \<times> error option) outcome" where
  "clusterRoleByPSPTName pa h obj =
     (case obj of
        ClusterRolePtr a \<Rightarrow>
          (case rolesH h a of
             None \<Rightarrow> Panic NilDereference
           | Some clusterRole \<Rightarrow>
               if mapIndex (mapsH h) (Annotations clusterRole) pa = '''' then Return ([], None)
               else Return ([mapIndex (mapsH h) (Annotations clusterRole) pa], None))
      | _ \<Rightarrow> Return ([], None))"

section \<open>The lifecycle operations\<close>

type_synonym ('spec, 'w) result =
  "('spec template option \<times> error option) outcome \<times> ('spec, 'w) state"

definition Create ::
  "('spec, 'w) Lifecycle \<Rightarrow> 'spec template \<Rightarrow> ('spec, 'w) state \<Rightarrow> ('spec, 'w) result" where
  "Create l obj s = (Return (None, None), s)"

text \<open>
  The body of the \<^verbatim>\<open>for\<close> loop of \<^verbatim>\<open>Updated\<close>.  The result \<open>None\<close> means that the loop
  ran to its end; \<open>Some r\<close> is an early return or a panic inside the loop.
\<close>

fun Updated_loop ::
  "('spec, 'w) Lifecycle \<Rightarrow> string \<Rightarrow> 'spec template \<Rightarrow> iface list \<Rightarrow> ('spec, 'w) state \<Rightarrow>
     ('spec template option \<times> error option) outcome option \<times> ('spec, 'w) state" where
  "Updated_loop l va obj [] s = (None, s)"
| "Updated_loop l va obj (rawPolicy # rest) s =
     (case rawPolicy of
        PolicyPtr a \<Rightarrow>
          (case policiesH (mem s) a of
             None \<Rightarrow> (Some (Panic NilDereference), s)
           | Some policy \<Rightarrow>
               if mapIndex (mapsH (mem s)) (Annotations policy) va \<noteq> ResourceVersion obj then
                 (let (newPolicy, h1) = DeepCopy policy (mem s);
                      h2 = h1\<lparr>policiesH := (policiesH h1)(newPolicy :=
                              map_option (\<lambda>np. np\<lparr>PolicySpec := Spec obj\<rparr>) (policiesH h1 newPolicy))\<rparr>
                  in case policiesH h2 newPolicy of
                       None \<Rightarrow> (Some (Panic NilDereference), s\<lparr>mem := h2\<rparr>)
                     | Some np \<Rightarrow>
                         (case Annotations np of
                            None \<Rightarrow> (Some (Panic NilMapAssignment), s\<lparr>mem := h2\<rparr>)
                          | Some m \<Rightarrow>
                              (let h3 = h2\<lparr>mapsH := (mapsH h2)(m := (mapsH h2 m)(va \<mapsto> ResourceVersion obj))\<rparr>;
                                   sent = snapshot h3 np;
                                   (err, w') = policies_Update l sent (world s);
                                   s' = s\<lparr>mem := h3, world := w', calls := calls s @ [Update sent]\<rparr>
                               in case err of
                                    Some e \<Rightarrow>
                                      (Some (Return (None, Some (Errorf ''error updating psp: %v'' e))), s')
                                  | None \<Rightarrow> Updated_loop l va obj rest s')))
               else Updated_loop l va obj rest s)
      | _ \<Rightarrow> (Some (Panic TypeAssertion), s))"

definition Updated ::
  "('spec, 'w) Lifecycle \<Rightarrow> string \<Rightarrow> 'spec template \<Rightarrow> ('spec, 'w) state \<Rightarrow> ('spec, 'w) result" where
  "Updated l va obj s =
     (let (policies, err) = policyIndexer_ByIndex l policyByPSPTParentAnnotationIndex (Name obj) (world s);
          s1 = s\<lparr>calls := calls s @ [PolicyByIndex policyByPSPTParentAnnotationIndex (Name obj)]\<rparr>
      in case err of
           Some e \<Rightarrow> (Return (None, Some (Errorf ''error getting policies: %v'' e)), s1)
         | None \<Rightarrow>
             (case Updated_loop l va obj policies s1 of
                (Some r, s2) \<Rightarrow> (r, s2)
              | (None, s2) \<Rightarrow> (Return (Some obj, None), s2)))"

fun Remove_policies_loop ::
  "('spec, 'w) Lifecycle \<Rightarrow> iface list \<Rightarrow> ('spec, 'w) state \<Rightarrow>
     ('spec template option \<times> error option) outcome option \<times> ('spec, 'w) state" where
  "Remove_policies_loop l [] s = (None, s)"
| "Remove_policies_loop l (rawPolicy # rest) s =
     (case rawPolicy of
        PolicyPtr a \<Rightarrow>
          (case policiesH (mem s) a of
             None \<Rightarrow> (Some (Panic NilDereference), s)
           | Some policy \<Rightarrow>
               (let (err, w') = policies_Delete l (Name policy) (world s);
                    s' = s\<lparr>world := w', calls := calls s @ [Delete (Name policy)]\<rparr>
                in case err of
                     Some e \<Rightarrow> (Some (Return (None, Some (Errorf ''error deleting policy: %v'' e))), s')
                   | None \<Rightarrow> Remove_policies_loop l rest s'))
      | _ \<Rightarrow> (Some (Panic TypeAssertion), s))"

fun Remove_clusterRoles_loop ::
  "('spec, 'w) Lifecycle \<Rightarrow> iface list \<Rightarrow> ('spec, 'w) state \<Rightarrow>
     ('spec template option \<times> error option) outcome option \<times> ('spec, 'w) state" where
  "Remove_clusterRoles_loop l [] s = (None, s)"
| "Remove_clusterRoles_loop l (rawClusterRole # rest) s =
     (case rawClusterRole of
        ClusterRolePtr a \<Rightarrow>
          (case rolesH (mem s) a of
             None \<Rightarrow> (Some (Panic NilDereference), s)
           | Some clusterRole \<Rightarrow>
               (let (err, w') = clusterRoles_DeleteNamespaced l (Namespace clusterRole) (Name clusterRole) (world s);
                    s' = s\<lparr>world := w',
                           calls := calls s @ [DeleteNamespaced (Namespace clusterRole) (Name clusterRole)]\<rparr>
                in case err of
                     Some e \<Rightarrow> (Some (Return (None, Some (Errorf ''error deleting cluster role: %v'' e))), s')
                   | None \<Rightarrow> Remove_clusterRoles_loop l rest s'))
      | _ \<Rightarrow> (Some (Panic TypeAssertion), s))"

definition Remove ::
  "('spec, 'w) Lifecycle \<Rightarrow> 'spec template \<Rightarrow> ('spec, 'w) state \<Rightarrow> ('spec, 'w) result" where
  "Remove l obj s =
     (let (policies, err) = policyIndexer_ByIndex l policyByPSPTParentAnnotationIndex (Name obj) (world s);
          s1 = s\<lparr>calls := calls s @ [PolicyByIndex policyByPSPTParentAnnotationIndex (Name obj)]\<rparr>
      in case err of
           Some e \<Rightarrow> (Return (None, Some (Errorf ''error getting policies: %v'' e)), s1)
         | None \<Rightarrow>
             (case Remove_policies_loop l policies s1 of
                (Some r, s2) \<Rightarrow> (r, s2)
              | (None, s2) \<Rightarrow>
                  (let (clusterRoles, err2) = clusterRoleIndexer_ByIndex l clusterRoleByPSPTNameIndex (Name obj) (world s2);
                       s3 = s2\<lparr>calls := calls s2 @ [ClusterRoleByIndex clusterRoleByPSPTNameIndex (Name obj)]\<rparr>
                   in case err2 of
                        Some e \<Rightarrow> (Return (None, Some (Errorf ''error getting cluster roles: %v'' e)), s3)
                      | None \<Rightarrow>
                          (case Remove_clusterRoles_loop l clusterRoles s3 of
                             (Some r, s4) \<Rightarrow> (r, s4)
                           | (None, s4) \<Rightarrow> (Return (Some obj, None), s4)))))"

section \<open>Notions used to state the properties\<close>

text \<open>
  What the collaborator answers to a recorded call, and the format string with which the
  handler wraps an error of that call.
\<close>

fun perform :: "('spec, 'w) Lifecycle \<Rightarrow> 'spec call \<Rightarrow> 'w \<Rightarrow> error option \<times> 'w" where
  "perform l (PolicyByIndex idx k) w = (snd (policyIndexer_ByIndex l idx k w), w)"
| "perform l (ClusterRoleByIndex idx k) w = (snd (clusterRoleIndexer_ByIndex l idx k w), w)"
| "perform l (Update q) w = policies_Update l q w"
| "perform l (Delete n) w = policies_Delete l n w"
| "perform l (DeleteNamespaced ns n) w = clusterRoles_DeleteNamespaced l ns n w"

fun format_of :: "'spec call \<Rightarrow> string" where
  "format_of (PolicyByIndex idx k) = ''error getting policies: %v''"
| "format_of (ClusterRoleByIndex idx k) = ''error getting cluster roles: %v''"
| "format_of (Update q) = ''error updating psp: %v''"
| "format_of (Delete n) = ''error deleting policy: %v''"
| "format_of (DeleteNamespaced ns n) = ''error deleting cluster role: %v''"

text \<open>
  Replaying a sequence of calls on an outside state, stopping at the first call that fails:
  the wrapped error of that call (or \<open>None\<close>), the outside state reached, and the calls
  of the sequence that were not performed.
\<close>

fun replay ::
  "('spec, 'w) Lifecycle \<Rightarrow> 'spec call list \<Rightarrow> 'w \<Rightarrow> error option \<times> 'w \<times> 'spec call list" where
  "replay l [] w = (None, w, [])"
| "replay l (c # cs) w =
     (case perform l c w of
        (Some e, w1) \<Rightarrow> (Some (Errorf (format_of c) e), w1, cs)
      | (None, w1) \<Rightarrow> replay l cs w1)"

text \<open>The error and the object of a result; a panic carries neither.\<close>

fun error_of :: "('a \<times> error option) outcome \<Rightarrow> error option" where
  "error_of (Panic c) = None"
| "error_of (Return (x, e)) = e"

fun object_of :: "('a option \<times> error option) outcome \<Rightarrow> 'a option" where
  "object_of (Panic c) = None"
| "object_of (Return (x, e)) = x"

definition new_calls :: "('spec, 'w) state \<Rightarrow> ('spec, 'w) state \<Rightarrow> 'spec call list" where
  "new_calls s s' = drop (length (calls s)) (calls s')"

text \<open>The two lookups of a template's derived objects: the recorded call and the objects returned.\<close>

definition policy_lookup :: "'spec template \<Rightarrow> 'spec call" where
  "policy_lookup obj = PolicyByIndex policyByPSPTParentAnnotationIndex (Name obj)"

definition role_lookup :: "'spec template \<Rightarrow> 'spec call" where
  "role_lookup obj = ClusterRoleByIndex clusterRoleByPSPTNameIndex (Name obj)"

definition indexed_policies :: "('spec, 'w) Lifecycle \<Rightarrow> 'spec template \<Rightarrow> 'w \<Rightarrow> iface list" where
  "indexed_policies l obj w = fst (policyIndexer_ByIndex l policyByPSPTParentAnnotationIndex (Name obj) w)"

definition indexed_roles :: "('spec, 'w) Lifecycle \<Rightarrow> 'spec template \<Rightarrow> 'w \<Rightarrow> iface list" where
  "indexed_roles l obj w = fst (clusterRoleIndexer_ByIndex l clusterRoleByPSPTNameIndex (Name obj) w)"

text \<open>
  A policy of the cache that existed before the invocation: the pointer and the map it
  references lie below the allocation pointer.
\<close>

definition allocated :: "'spec heap \<Rightarrow> iface \<Rightarrow> bool" where
  "allocated h raw =
     (case raw of
        PolicyPtr a \<Rightarrow>
          a < nextAddr h \<and>
          (case policiesH h a of
             None \<Rightarrow> False
           | Some p \<Rightarrow> (case Annotations p of None \<Rightarrow> True | Some m \<Rightarrow> m < nextAddr h))
      | _ \<Rightarrow> False)"

text \<open>The object written for a policy: its spec and its source-version annotation are set.\<close>

definition synced :: "string \<Rightarrow> 'spec template \<Rightarrow> 'spec policy_value \<Rightarrow> 'spec policy_value" where
  "synced va obj q =
     q\<lparr>Annotations := map_option (\<lambda>m. m(va \<mapsto> ResourceVersion obj)) (Annotations q),
       PolicySpec := Spec obj\<rparr>"

text \<open>
  The policies of a lookup result whose source-version annotation differs from the
  template's version, in the order of the lookup result.
\<close>

fun stale :: "string \<Rightarrow> 'spec template \<Rightarrow> 'spec heap \<Rightarrow> iface list \<Rightarrow> 'spec policy_value list" where
  "stale va obj h [] = []"
| "stale va obj h (PolicyPtr a # rest) =
     (case policiesH h a of
        None \<Rightarrow> stale va obj h rest
      | Some p \<Rightarrow>
          if mapIndex (mapsH h) (Annotations p) va \<noteq> ResourceVersion obj
          then snapshot h p # stale va obj h rest
          else stale va obj h rest)"
| "stale va obj h (_ # rest) = stale va obj h rest"

text \<open>The delete call that \<^verbatim>\<open>Remove\<close> issues for an object of a lookup result.\<close>

fun policy_delete :: "'spec heap \<Rightarrow> iface \<Rightarrow> 'spec call option" where
  "policy_delete h (PolicyPtr a) = map_option (\<lambda>p. Delete (Name p)) (policiesH h a)"
| "policy_delete h _ = None"

fun role_delete :: "'spec heap \<Rightarrow> iface \<Rightarrow> 'spec call option" where
  "role_delete h (ClusterRolePtr a) =
     map_option (\<lambda>r. DeleteNamespaced (Namespace r) (Name r)) (rolesH h a)"
| "role_delete h _ = None"

text \<open>
  The heap after the loop of \<^verbatim>\<open>Updated\<close> has copied a policy and assigned the spec and the
  annotation (\<open>copied\<close>), the heap when the copy has a nil annotations map (\<open>copied_nil\<close>),
  and the state after the copy has been sent to the store (\<open>after_update\<close>).
\<close>

definition copied :: "string \<Rightarrow> 'spec template \<Rightarrow> 'spec policy_struct \<Rightarrow> addr \<Rightarrow> 'spec heap \<Rightarrow> 'spec heap" where
  "copied va obj p m h =
     h\<lparr>nextAddr := nextAddr h + 2,
       policiesH := (policiesH h)(nextAddr h + 1 \<mapsto> p\<lparr>Annotations := Some (nextAddr h), PolicySpec := Spec obj\<rparr>),
       mapsH := (mapsH h)(nextAddr h := (mapsH h m)(va \<mapsto> ResourceVersion obj))\<rparr>"

definition copied_nil :: "'spec template \<Rightarrow> 'spec policy_struct \<Rightarrow> 'spec heap \<Rightarrow> 'spec heap" where
  "copied_nil obj p h =
     h\<lparr>policiesH := (policiesH h)(nextAddr h \<mapsto> p\<lparr>PolicySpec := Spec obj\<rparr>),
       nextAddr := nextAddr h + 1\<rparr>"

definition after_update ::
  "string \<Rightarrow> 'spec template \<Rightarrow> 'spec policy_struct \<Rightarrow> addr \<Rightarrow> 'w \<Rightarrow> ('spec, 'w) state \<Rightarrow> ('spec, 'w) state" where
  "after_update va obj p m w' s =
     s\<lparr>mem := copied va obj p m (mem s), world := w',
       calls := calls s @ [Update (synced va obj (snapshot (mem s) p))]\<rparr>"

text \<open>Two heaps agree below an address.\<close>

definition agree_below :: "addr \<Rightarrow> 'spec heap \<Rightarrow> 'spec heap \<Rightarrow> bool" where
  "agree_below n h h' =
     (n \<le> nextAddr h' \<and> rolesH h' = rolesH h \<and>
      (\<forall>a<n. policiesH h' a = policiesH h a \<and> mapsH h' a = mapsH h a))"

text \<open>
  What a store that accepts a write is expected to do, in terms of an observation \<open>stored\<close>
  of the policies it holds: after a successful \<^verbatim>\<open>Update\<close> the store holds, under the name
  of the written object, an object with the written spec and annotations, and the objects
  under other names are as before.  \<open>converged\<close> says that a stored policy carries the
  template's spec and version.
\<close>

definition converged :: "string \<Rightarrow> 'spec template \<Rightarrow> 'spec policy_value \<Rightarrow> bool" where
  "converged va obj q =
     (PolicySpec q = Spec obj \<and>
      (case Annotations q of None \<Rightarrow> False | Some m \<Rightarrow> m va = Some (ResourceVersion obj)))"

definition store_contract ::
  "('spec, 'w) Lifecycle \<Rightarrow> ('w \<Rightarrow> string \<rightharpoonup> 'spec policy_value) \<Rightarrow> bool" where
  "store_contract l stored =
     (\<forall>q w w'. policies_Update l q w = (None, w') \<longrightarrow>
        (\<exists>q'. stored w' (Name q) = Some q' \<and> PolicySpec q' = PolicySpec q \<and> Annotations q' = Annotations q) \<and>
        (\<forall>n. n \<noteq> Name q \<longrightarrow> stored w' n = stored w n))"

section \<open>An in-memory cluster for running the operations on concrete inputs\<close>

text \<open>
  A small stand-in for the collaborators: a policy store keyed by name, a role store keyed
  by namespace and name, both reporting \<open>NotFound\<close> for a missing object, and two caches
  that answer a lookup under the index name they were registered with.
\<close>

record 'spec cluster =
  policyCache :: "string \<Rightarrow> iface list"
  roleCache :: "string \<Rightarrow> iface list"
  policyStore :: "string \<rightharpoonup> 'spec policy_value"
  roleStore :: "(string \<times> string) set"

definition memCluster :: "('spec, 'spec cluster) Lifecycle" where
  "memCluster =
     \<lparr>policies_Update = (\<lambda>q w.
          if policyStore w (Name q) = None then (Some NotFound, w)
          else (None, w\<lparr>policyStore := (policyStore w)(Name q \<mapsto> q)\<rparr>)),
      policies_Delete = (\<lambda>n w.
          if policyStore w n = None then (Some NotFound, w)
          else (None, w\<lparr>policyStore := (policyStore w)(n := None)\<rparr>)),
      clusterRoles_DeleteNamespaced = (\<lambda>ns n w.
          if (ns, n) \<in> roleStore w then (None, w\<lparr>roleStore := roleStore w - {(ns, n)}\<rparr>)
          else (Some NotFound, w)),
      policyIndexer_ByIndex = (\<lambda>idx k w.
          if idx = policyByPSPTParentAnnotationIndex then (policyCache w k, None)
          else ([], Some (Failure ''Index does not exist''))),
      clusterRoleIndexer_ByIndex = (\<lambda>idx k w.
          if idx = clusterRoleByPSPTNameIndex then (roleCache w k, None)
          else ([], Some (Failure ''Index does not exist'')))\<rparr>"

text \<open>
  The scenario of the specification: template \<open>t1\<close> at version 5 with spec
  \<open>allowPrivileged = False\<close>; policy \<open>p1\<close> with spec \<open>allowPrivileged = True\<close>, parent
  \<open>t1\<close> and source version 4; role \<open>r1\<close> in namespace \<open>ns\<close> with parent \<open>t1\<close>.
\<close>

definition t1 :: "bool template" where
  "t1 = \<lparr>Name = ''t1'', Namespace = '''', ResourceVersion = ''5'', Annotations = None,
         Description = '''', Spec = False\<rparr>"

definition p1 :: "bool policy_struct" where
  "p1 = \<lparr>Name = ''p1'', Namespace = '''', ResourceVersion = ''17'', Annotations = Some 0,
         PolicySpec = True\<rparr>"

definition p1_annotations :: "string \<rightharpoonup> string" where
  "p1_annotations = [''parent'' \<mapsto> ''t1'', ''version'' \<mapsto> ''4'']"

definition r1 :: role_struct where
  "r1 = \<lparr>Name = ''r1'', Namespace = ''ns'', ResourceVersion = ''3'', Annotations = Some 2\<rparr>"

definition heap1 :: "bool heap" where
  "heap1 = \<lparr>policiesH = [1 \<mapsto> p1], rolesH = [3 \<mapsto> r1],
            mapsH = (\<lambda>_. Map.empty)(0 := p1_annotations, 2 := [''parent'' \<mapsto> ''t1'']),
            nextAddr = 4\<rparr>"

definition cluster1 :: "bool cluster" where
  "cluster1 = \<lparr>policyCache = (\<lambda>_. [])(''t1'' := [PolicyPtr 1]),
               roleCache = (\<lambda>_. [])(''t1'' := [ClusterRolePtr 3]),
               policyStore = [''p1'' \<mapsto> snapshot heap1 p1],
               roleStore = {(''ns'', ''r1'')}\<rparr>"

definition state1 :: "(bool, bool cluster) state" where
  "state1 = \<lparr>mem = heap1, world = cluster1, calls = []\<rparr>"

text \<open>A second policy without annotations (its map is nil), and a heap that holds it as well.\<close>

definition p2 :: "bool policy_struct" where
  "p2 = \<lparr>Name = ''p2'', Namespace = '''', ResourceVersion = ''8'', Annotations = None,
         PolicySpec = True\<rparr>"

definition heap2 :: "bool heap" where
  "heap2 = heap1\<lparr>policiesH := (policiesH heap1)(4 \<mapsto> p2), nextAddr := 5\<rparr>"

text \<open>
  Further states of the scenario: the object written for \<open>p1\<close> and the state after one
  \<^verbatim>\<open>Updated\<close>; a cluster whose store has lost \<open>p1\<close> while the cache still lists it; a
  cluster in which nothing is left.
\<close>

definition p1_written :: "bool policy_value" where
  "p1_written = \<lparr>Name = ''p1'', Namespace = '''', ResourceVersion = ''17'',
                 Annotations = Some (p1_annotations(''version'' \<mapsto> ''5'')), PolicySpec = False\<rparr>"

definition state1_updated :: "(bool, bool cluster) state" where
  "state1_updated = snd (Updated memCluster ''version'' t1 state1)"

definition cluster_stale :: "bool cluster" where
  "cluster_stale = cluster1\<lparr>policyStore := Map.empty\<rparr>"

definition state_stale :: "(bool, bool cluster) state" where
  "state_stale = state1\<lparr>world := cluster_stale\<rparr>"

definition cluster_gone :: "bool cluster" where
  "cluster_gone = \<lparr>policyCache = (\<lambda>_. []), roleCache = (\<lambda>_. []), policyStore = Map.empty, roleStore = {}\<rparr>"

definition state_gone :: "(bool, bool cluster) state" where
  "state_gone = state1\<lparr>world := cluster_gone\<rparr>"

text \<open>The scenario after the cache has seen the write: \<open>p1\<close> carries source version 5.\<close>

definition state_synced :: "(bool, bool cluster) state" where
  "state_synced =
     state1\<lparr>mem := heap1\<lparr>mapsH := (mapsH heap1)(0 := p1_annotations(''version'' \<mapsto> ''5''))\<rparr>\<rparr>"

text \<open>The state after one \<^verbatim>\<open>Remove\<close> in the scenario.\<close>

definition state1_removed :: "(bool, bool cluster) state" where
  "state1_removed = snd (Remove memCluster t1 state1)"

lemmas scenario_defs =
  memCluster_def t1_def p1_def p1_annotations_def r1_def heap1_def cluster1_def state1_def
  policyByPSPTParentAnnotationIndex_def clusterRoleByPSPTNameIndex_def

lemmas model_defs =
  Updated_def Remove_def Create_def DeepCopy_def snapshot_def mapIndex_def Let_def

lemmas more_defs = p1_written_def state1_updated_def cluster_stale_def state_stale_def cluster_gone_def state_gone_def
  policy_lookup_def role_lookup_def indexed_policies_def indexed_roles_def new_calls_def

section \<open>The loop of Updated, step by step\<close>

lemma replay_append:
  "replay l (cs @ ds) w =
     (case replay l cs w of
        (None, w1, rest) \<Rightarrow> replay l ds w1
      | (Some e, w1, rest) \<Rightarrow> (Some e, w1, rest @ ds))"
  by (induction cs arbitrary: w) (auto split: prod.splits option.splits)

lemma Updated_loop_skip:
  "policiesH (mem s) a = Some p \<Longrightarrow> mapIndex (mapsH (mem s)) (Annotations p) va = ResourceVersion obj \<Longrightarrow>
   Updated_loop l va obj (PolicyPtr a # rest) s = Updated_loop l va obj rest s"
  by simp

lemma Updated_loop_write:
  "policiesH (mem s) a = Some p \<Longrightarrow> mapIndex (mapsH (mem s)) (Annotations p) va \<noteq> ResourceVersion obj \<Longrightarrow>
   Annotations p = Some m \<Longrightarrow>
   Updated_loop l va obj (PolicyPtr a # rest) s =
     (case policies_Update l (synced va obj (snapshot (mem s) p)) (world s) of
        (Some e, w') \<Rightarrow>
          (Some (Return (None, Some (Errorf ''error updating psp: %v'' e))), after_update va obj p m w' s)
      | (None, w') \<Rightarrow> Updated_loop l va obj rest (after_update va obj p m w' s))"
  by (simp add: DeepCopy_def Let_def snapshot_def synced_def copied_def after_update_def
           split: prod.splits option.splits)

lemma Updated_loop_nil_map:
  "policiesH (mem s) a = Some p \<Longrightarrow> mapIndex (mapsH (mem s)) (Annotations p) va \<noteq> ResourceVersion obj \<Longrightarrow>
   Annotations p = None \<Longrightarrow>
   Updated_loop l va obj (PolicyPtr a # rest) s =
     (Some (Panic NilMapAssignment), s\<lparr>mem := copied_nil obj p (mem s)\<rparr>)"
  by (simp add: DeepCopy_def Let_def copied_nil_def)

lemma Updated_loop_nil_pointer:
  "policiesH (mem s) a = None \<Longrightarrow>
   Updated_loop l va obj (PolicyPtr a # rest) s = (Some (Panic NilDereference), s)"
  by simp

lemma Updated_loop_not_policy:
  "\<forall>a. raw \<noteq> PolicyPtr a \<Longrightarrow>
   Updated_loop l va obj (raw # rest) s = (Some (Panic TypeAssertion), s)"
  by (cases raw) simp_all

declare Updated_loop.simps(2) [simp del]

lemma Updated_loop_run [consumes 1, case_names finished not_policy nil_pointer skip nil_map failed written]:
  assumes run: "Updated_loop l va obj raws s = (r, s')"
    and finished: "\<And>s. P [] s None s"
    and not_policy: "\<And>raw rest s. \<forall>a. raw \<noteq> PolicyPtr a \<Longrightarrow> P (raw # rest) s (Some (Panic TypeAssertion)) s"
    and nil_pointer: "\<And>a rest s. policiesH (mem s) a = None \<Longrightarrow>
        P (PolicyPtr a # rest) s (Some (Panic NilDereference)) s"
    and skip: "\<And>a p rest s r s'. policiesH (mem s) a = Some p \<Longrightarrow>
        mapIndex (mapsH (mem s)) (Annotations p) va = ResourceVersion obj \<Longrightarrow>
        Updated_loop l va obj rest s = (r, s') \<Longrightarrow> P rest s r s' \<Longrightarrow> P (PolicyPtr a # rest) s r s'"
    and nil_map: "\<And>a p rest s. policiesH (mem s) a = Some p \<Longrightarrow>
        mapIndex (mapsH (mem s)) (Annotations p) va \<noteq> ResourceVersion obj \<Longrightarrow>
        Annotations p = None \<Longrightarrow>
        P (PolicyPtr a # rest) s (Some (Panic NilMapAssignment)) (s\<lparr>mem := copied_nil obj p (mem s)\<rparr>)"
    and failed: "\<And>a p m rest s e w'. policiesH (mem s) a = Some p \<Longrightarrow>
        mapIndex (mapsH (mem s)) (Annotations p) va \<noteq> ResourceVersion obj \<Longrightarrow>
        Annotations p = Some m \<Longrightarrow>
        policies_Update l (synced va obj (snapshot (mem s) p)) (world s) = (Some e, w') \<Longrightarrow>
        P (PolicyPtr a # rest) s (Some (Return (None, Some (Errorf ''error updating psp: %v'' e))))
          (after_update va obj p m w' s)"
    and written: "\<And>a p m rest s w' r s'. policiesH (mem s) a = Some p \<Longrightarrow>
        mapIndex (mapsH (mem s)) (Annotations p) va \<noteq> ResourceVersion obj \<Longrightarrow>
        Annotations p = Some m \<Longrightarrow>
        policies_Update l (synced va obj (snapshot (mem s) p)) (world s) = (None, w') \<Longrightarrow>
        Updated_loop l va obj rest (after_update va obj p m w' s) = (r, s') \<Longrightarrow>
        P rest (after_update va obj p m w' s) r s' \<Longrightarrow> P (PolicyPtr a # rest) s r s'"
  shows "P raws s r s'"
  using run
proof (induction raws arbitrary: s)
  case Nil
  then show ?case using finished by simp
next
  case (Cons raw rest)
  show ?case
  proof (cases "\<exists>a. raw = PolicyPtr a")
    case False
    then have "\<forall>a. raw \<noteq> PolicyPtr a" by simp
    with Cons.prems have "r = Some (Panic TypeAssertion)" "s' = s"
      by (simp_all add: Updated_loop_not_policy)
    with not_policy[OF \<open>\<forall>a. raw \<noteq> PolicyPtr a\<close>] show ?thesis by simp
  next
    case True
    then obtain a where raw: "raw = PolicyPtr a" ..
    show ?thesis
    proof (cases "policiesH (mem s) a")
      case None
      with Cons.prems raw have "r = Some (Panic NilDereference)" "s' = s"
        by (simp_all add: Updated_loop_nil_pointer)
      with nil_pointer[OF None] raw show ?thesis by simp
    next
      case (Some p)
      note p = this
      show ?thesis
      proof (cases "mapIndex (mapsH (mem s)) (Annotations p) va = ResourceVersion obj")
        case True
        with Cons.prems raw p have "Updated_loop l va obj rest s = (r, s')"
          by (simp add: Updated_loop_skip)
        with Cons.IH skip p True raw show ?thesis by blast
      next
        case False
        show ?thesis
        proof (cases "Annotations p")
          case None
          with Cons.prems raw p False
          have "r = Some (Panic NilMapAssignment)" "s' = s\<lparr>mem := copied_nil obj p (mem s)\<rparr>"
            by (simp_all add: Updated_loop_nil_map)
          with nil_map[OF p False None] raw show ?thesis by simp
        next
          case (Some m)
          obtain err w' where upd:
            "policies_Update l (synced va obj (snapshot (mem s) p)) (world s) = (err, w')"
            by (cases "policies_Update l (synced va obj (snapshot (mem s) p)) (world s)")
          show ?thesis
          proof (cases err)
            case None
            with Cons.prems raw p False Some upd
            have "Updated_loop l va obj rest (after_update va obj p m w' s) = (r, s')"
              by (simp add: Updated_loop_write)
            with Cons.IH written p False Some upd None raw show ?thesis by blast
          next
            case (Some e)
            with Cons.prems raw p False \<open>Annotations p = Some m\<close> upd
            have "r = Some (Return (None, Some (Errorf ''error updating psp: %v'' e)))"
              "s' = after_update va obj p m w' s"
              by (simp_all add: Updated_loop_write)
            with failed[OF p False \<open>Annotations p = Some m\<close>] upd Some raw show ?thesis by simp
          qed
        qed
      qed
    qed
  qed
qed

lemma Updated_loop_frame:
  "Updated_loop l va obj raws s = (r, s') \<Longrightarrow>
   nextAddr (mem s) \<le> nextAddr (mem s') \<and> agree_below (nextAddr (mem s)) (mem s) (mem s')"
proof (induction rule: Updated_loop_run)
  case (written a p m rest s w' r s')
  then show ?case by (auto simp: agree_below_def after_update_def copied_def)
qed (simp_all add: agree_below_def after_update_def copied_def copied_nil_def)

lemma Updated_loop_replay:
  "Updated_loop l va obj raws s = (r, s') \<Longrightarrow>
   \<exists>cs. calls s' = calls s @ cs \<and>
        replay l cs (world s) = (case r of None \<Rightarrow> None | Some res \<Rightarrow> error_of res, world s', []) \<and>
        (\<forall>x e. r = Some (Return (x, e)) \<longrightarrow> x = None \<and> e \<noteq> None)"
proof (induction rule: Updated_loop_run)
  case (failed a p m rest s e w')
  then show ?case
    by (intro exI[of _ "[Update (synced va obj (snapshot (mem s) p))]"]) (simp add: after_update_def)
next
  case (written a p m rest s w' r s')
  then obtain cs where cs: "calls s' = calls (after_update va obj p m w' s) @ cs"
    "replay l cs w' = (case r of None \<Rightarrow> None | Some res \<Rightarrow> error_of res, world s', [])"
    "\<forall>x e. r = Some (Return (x, e)) \<longrightarrow> x = None \<and> e \<noteq> None"
    by (auto simp: after_update_def)
  with written(4) show ?case
    by (intro exI[of _ "Update (synced va obj (snapshot (mem s) p)) # cs"]) (simp add: after_update_def)
qed simp_all

lemma Updated_loop_no_panic:
  "Updated_loop l va obj raws s = (r, s') \<Longrightarrow>
   \<forall>raw\<in>set raws. \<exists>a q k. raw = PolicyPtr a \<and> policiesH (mem s) a = Some q \<and> Annotations q = Some k \<Longrightarrow>
   r \<noteq> Some (Panic c)"
proof (induction rule: Updated_loop_run)
  case (written a p m rest s w' r s')
  have "\<forall>raw\<in>set rest. \<exists>a' q k. raw = PolicyPtr a' \<and>
          policiesH (mem (after_update va obj p m w' s)) a' = Some q \<and> Annotations q = Some k"
  proof
    fix raw assume "raw \<in> set rest"
    with written.prems obtain a' p' m' where
      "raw = PolicyPtr a'" "policiesH (mem s) a' = Some p'" "Annotations p' = Some m'" by fastforce
    then show "\<exists>a' q k. raw = PolicyPtr a' \<and>
          policiesH (mem (after_update va obj p m w' s)) a' = Some q \<and> Annotations q = Some k"
      by (cases "a' = nextAddr (mem s) + 1") (auto simp: after_update_def copied_def)
  qed
  with written.IH show ?case .
qed auto


lemma allocated_agree:
  "allocated h raw \<Longrightarrow> agree_below (nextAddr h) h h' \<Longrightarrow> nextAddr h \<le> nextAddr h' \<Longrightarrow> allocated h' raw"
  by (auto simp: allocated_def agree_below_def split: iface.splits option.splits)

lemma stale_agree:
  "\<forall>raw\<in>set raws. allocated h raw \<Longrightarrow> agree_below (nextAddr h) h h' \<Longrightarrow>
   stale va obj h' raws = stale va obj h raws"
proof (induction raws)
  case Nil
  show ?case by simp
next
  case (Cons raw rest)
  then have IH: "stale va obj h' rest = stale va obj h rest" by simp
  from Cons.prems have al: "allocated h raw" by simp
  then obtain a p where raw: "raw = PolicyPtr a" and a: "a < nextAddr h" and p: "policiesH h a = Some p"
    and m: "\<forall>m. Annotations p = Some m \<longrightarrow> m < nextAddr h"
    by (auto simp: allocated_def split: iface.splits option.splits)
  from a p Cons.prems(2) have p': "policiesH h' a = Some p" by (simp add: agree_below_def)
  from m Cons.prems(2) have "map_option (mapsH h') (Annotations p) = map_option (mapsH h) (Annotations p)"
    by (cases "Annotations p") (simp_all add: agree_below_def)
  then have "snapshot h' p = snapshot h p"
    and "mapIndex (mapsH h') (Annotations p) va = mapIndex (mapsH h) (Annotations p) va"
    by (cases "Annotations p"; simp add: snapshot_def mapIndex_def)+
  with raw p p' IH show ?case by simp
qed

lemma agree_below_after_update:
  "agree_below (nextAddr (mem s)) (mem s) (mem (after_update va obj p m w' s))"
  by (simp add: agree_below_def after_update_def copied_def)

lemma Updated_loop_trace:
  "Updated_loop l va obj raws s = (r, s') \<Longrightarrow> \<forall>raw\<in>set raws. allocated (mem s) raw \<Longrightarrow>
   \<exists>k. calls s' = calls s @ map (\<lambda>q. Update (synced va obj q)) (take k (stale va obj (mem s) raws)) \<and>
       (r = None \<longrightarrow> length (stale va obj (mem s) raws) \<le> k)"
proof (induction rule: Updated_loop_run)
  case (finished s)
  show ?case by simp
next
  case (not_policy raw rest s)
  show ?case by (intro exI[of _ 0]) simp
next
  case (nil_pointer a rest s)
  show ?case by (intro exI[of _ 0]) simp
next
  case (skip a p rest s r s')
  then show ?case by simp
next
  case (nil_map a p rest s)
  show ?case by (intro exI[of _ 0]) simp
next
  case (failed a p m rest s e w')
  then show ?case by (intro exI[of _ 1]) (simp add: after_update_def)
next
  case (written a p m rest s w' r s')
  let ?s1 = "after_update va obj p m w' s"
  have ag: "agree_below (nextAddr (mem s)) (mem s) (mem ?s1)" by (rule agree_below_after_update)
  have le: "nextAddr (mem s) \<le> nextAddr (mem ?s1)" by (simp add: after_update_def copied_def)
  from written.prems have rest: "\<forall>raw\<in>set rest. allocated (mem s) raw" by simp
  then have "\<forall>raw\<in>set rest. allocated (mem ?s1) raw"
    using allocated_agree[OF _ ag le] by blast
  with written.IH obtain k where
    k: "calls s' = calls ?s1 @ map (\<lambda>q. Update (synced va obj q)) (take k (stale va obj (mem ?s1) rest))"
       "r = None \<longrightarrow> length (stale va obj (mem ?s1) rest) \<le> k"
    by blast
  have st: "stale va obj (mem ?s1) rest = stale va obj (mem s) rest"
    using rest ag by (rule stale_agree)
  from k st written(1,2) show ?case
    by (intro exI[of _ "Suc k"]) (simp add: after_update_def)
qed

lemma Updated_loop_store:
  "Updated_loop l va obj raws s = (r, s') \<Longrightarrow> r = None \<Longrightarrow> store_contract l stored \<Longrightarrow>
   \<forall>raw\<in>set raws. allocated (mem s) raw \<Longrightarrow>
   (\<exists>q\<in>set (stale va obj (mem s) raws). Name q = n) \<or> (\<exists>q. stored (world s) n = Some q \<and> converged va obj q) \<Longrightarrow>
   \<exists>q. stored (world s') n = Some q \<and> converged va obj q"
proof (induction rule: Updated_loop_run)
  case (finished s)
  then show ?case by simp
next
  case (skip a p rest s r s')
  then show ?case by simp
next
  case (written a p m rest s w' r s')
  let ?s1 = "after_update va obj p m w' s"
  let ?q = "synced va obj (snapshot (mem s) p)"
  have ag: "agree_below (nextAddr (mem s)) (mem s) (mem ?s1)" by (rule agree_below_after_update)
  have le: "nextAddr (mem s) \<le> nextAddr (mem ?s1)" by (simp add: after_update_def copied_def)
  from written.prems have rest: "\<forall>raw\<in>set rest. allocated (mem s) raw" by simp
  then have al1: "\<forall>raw\<in>set rest. allocated (mem ?s1) raw"
    using allocated_agree[OF _ ag le] by blast
  have st: "stale va obj (mem ?s1) rest = stale va obj (mem s) rest"
    using rest ag by (rule stale_agree)
  from written.prems(2) written(4)
  have c1: "\<exists>q'. stored w' (Name ?q) = Some q' \<and> PolicySpec q' = PolicySpec ?q \<and> Annotations q' = Annotations ?q"
    and c2: "\<forall>k. k \<noteq> Name ?q \<longrightarrow> stored w' k = stored (world s) k"
    unfolding store_contract_def by blast+
  have conv: "converged va obj ?q"
    using written(3) by (simp add: converged_def synced_def snapshot_def)
  have nm: "Name ?q = Name p" by (simp add: synced_def snapshot_def)
  have "(\<exists>q\<in>set (stale va obj (mem ?s1) rest). Name q = n) \<or>
        (\<exists>q. stored (world ?s1) n = Some q \<and> converged va obj q)"
  proof (cases "n = Name p")
    case True
    from c1 obtain q' where "stored w' (Name ?q) = Some q'" "PolicySpec q' = PolicySpec ?q"
      "Annotations q' = Annotations ?q" by blast
    with conv True nm have "stored w' n = Some q' \<and> converged va obj q'"
      by (simp add: converged_def)
    then show ?thesis by (auto simp: after_update_def)
  next
    case False
    with c2 nm have same: "stored w' n = stored (world s) n" by simp
    from written.prems(4) written(1,2) False
    have "(\<exists>q\<in>set (stale va obj (mem s) rest). Name q = n) \<or>
          (\<exists>q. stored (world s) n = Some q \<and> converged va obj q)"
      by (auto simp: snapshot_def)
    with same st show ?thesis by (simp add: after_update_def)
  qed
  with written.IH[OF written.prems(1) written.prems(2) al1] show ?case .
qed simp_all


section \<open>The loops of Remove\<close>

lemma Remove_policies_loop_trace:
  "Remove_policies_loop l raws s = (r, s') \<Longrightarrow>
   mem s' = mem s \<and>
   (\<exists>k cs. calls s' = calls s @ cs \<and>
      map (policy_delete (mem s)) (take k raws) = map Some cs \<and>
      (r = None \<longrightarrow> length raws \<le> k) \<and>
      replay l cs (world s) = (case r of None \<Rightarrow> None | Some res \<Rightarrow> error_of res, world s', []) \<and>
      (\<forall>x e. r = Some (Return (x, e)) \<longrightarrow> x = None \<and> e \<noteq> None))"
proof (induction raws arbitrary: s)
  case Nil
  then show ?case by simp
next
  case (Cons raw rest)
  have stop: "mem s' = mem s \<and> calls s' = calls s \<and> world s' = world s \<and> (\<exists>c. r = Some (Panic c)) \<Longrightarrow> ?case"
    by (intro conjI exI[of _ 0] exI[of _ "[]"]) auto
  show ?case
  proof (cases raw)
    case (PolicyPtr a)
    show ?thesis
    proof (cases "policiesH (mem s) a")
      case None
      with Cons.prems PolicyPtr show ?thesis by (intro stop) auto
    next
      case (Some p)
      obtain err w' where del: "policies_Delete l (Name p) (world s) = (err, w')"
        by (cases "policies_Delete l (Name p) (world s)")
      let ?s1 = "s\<lparr>world := w', calls := calls s @ [Delete (Name p)]\<rparr>"
      show ?thesis
      proof (cases err)
        case None
        with Cons.prems PolicyPtr Some del have "Remove_policies_loop l rest ?s1 = (r, s')"
          by simp
        from Cons.IH[OF this] obtain k cs where
          "mem s' = mem s" "calls s' = calls s @ Delete (Name p) # cs"
          "map (policy_delete (mem s)) (take k rest) = map Some cs"
          "r = None \<longrightarrow> length rest \<le> k"
          "replay l cs w' = (case r of None \<Rightarrow> None | Some res \<Rightarrow> error_of res, world s', [])"
          "\<forall>x e. r = Some (Return (x, e)) \<longrightarrow> x = None \<and> e \<noteq> None"
          by auto
        with PolicyPtr Some del None show ?thesis
          by (intro conjI exI[of _ "Suc k"] exI[of _ "Delete (Name p) # cs"]) simp_all
      next
        case (Some e)
        with Cons.prems PolicyPtr \<open>policiesH (mem s) a = Some p\<close> del
        have "r = Some (Return (None, Some (Errorf ''error deleting policy: %v'' e)))" "s' = ?s1"
          by simp_all
        with PolicyPtr \<open>policiesH (mem s) a = Some p\<close> del Some show ?thesis
          by (intro conjI exI[of _ 1] exI[of _ "[Delete (Name p)]"]) simp_all
      qed
    qed
  next
    case (ClusterRolePtr a)
    with Cons.prems show ?thesis by (intro stop) auto
  next
    case OtherValue
    with Cons.prems show ?thesis by (intro stop) auto
  qed
qed

lemma Remove_clusterRoles_loop_trace:
  "Remove_clusterRoles_loop l raws s = (r, s') \<Longrightarrow>
   mem s' = mem s \<and>
   (\<exists>k cs. calls s' = calls s @ cs \<and>
      map (role_delete (mem s)) (take k raws) = map Some cs \<and>
      (r = None \<longrightarrow> length raws \<le> k) \<and>
      replay l cs (world s) = (case r of None \<Rightarrow> None | Some res \<Rightarrow> error_of res, world s', []) \<and>
      (\<forall>x e. r = Some (Return (x, e)) \<longrightarrow> x = None \<and> e \<noteq> None))"
proof (induction raws arbitrary: s)
  case Nil
  then show ?case by simp
next
  case (Cons raw rest)
  have stop: "mem s' = mem s \<and> calls s' = calls s \<and> world s' = world s \<and> (\<exists>c. r = Some (Panic c)) \<Longrightarrow> ?case"
    by (intro conjI exI[of _ 0] exI[of _ "[]"]) auto
  show ?case
  proof (cases raw)
    case (ClusterRolePtr a)
    show ?thesis
    proof (cases "rolesH (mem s) a")
      case None
      with Cons.prems ClusterRolePtr show ?thesis by (intro stop) auto
    next
      case (Some p)
      let ?c = "DeleteNamespaced (Namespace p) (Name p) :: 'a call"
      obtain err w' where del: "clusterRoles_DeleteNamespaced l (Namespace p) (Name p) (world s) = (err, w')"
        by (cases "clusterRoles_DeleteNamespaced l (Namespace p) (Name p) (world s)")
      let ?s1 = "s\<lparr>world := w', calls := calls s @ [?c]\<rparr>"
      show ?thesis
      proof (cases err)
        case None
        with Cons.prems ClusterRolePtr Some del have "Remove_clusterRoles_loop l rest ?s1 = (r, s')"
          by simp
        from Cons.IH[OF this] obtain k cs where
          "mem s' = mem s" "calls s' = calls s @ ?c # cs"
          "map (role_delete (mem s)) (take k rest) = map Some cs"
          "r = None \<longrightarrow> length rest \<le> k"
          "replay l cs w' = (case r of None \<Rightarrow> None | Some res \<Rightarrow> error_of res, world s', [])"
          "\<forall>x e. r = Some (Return (x, e)) \<longrightarrow> x = None \<and> e \<noteq> None"
          by auto
        with ClusterRolePtr Some del None show ?thesis
          by (intro conjI exI[of _ "Suc k"] exI[of _ "?c # cs"]) simp_all
      next
        case (Some e)
        with Cons.prems ClusterRolePtr \<open>rolesH (mem s) a = Some p\<close> del
        have "r = Some (Return (None, Some (Errorf ''error deleting cluster role: %v'' e)))" "s' = ?s1"
          by simp_all
        with ClusterRolePtr \<open>rolesH (mem s) a = Some p\<close> del Some show ?thesis
          by (intro conjI exI[of _ 1] exI[of _ "[?c]"]) simp_all
      qed
    qed
  next
    case (PolicyPtr a)
    with Cons.prems show ?thesis by (intro stop) auto
  next
    case OtherValue
    with Cons.prems show ?thesis by (intro stop) auto
  qed
qed


section \<open>The operations as sequences of calls\<close>

lemma Remove_structure:
  assumes run: "Remove l obj s = (r, s')"
  shows "mem s' = mem s \<and>
    ((\<exists>k ps. calls s' = calls s @ policy_lookup obj # ps \<and>
         map (policy_delete (mem s)) (take k (indexed_policies l obj (world s))) = map Some ps \<and>
         (\<forall>x. r \<noteq> Return (x, None))) \<or>
     (\<exists>k ps rs w1. calls s' = calls s @ policy_lookup obj # ps @ role_lookup obj # rs \<and>
         map (policy_delete (mem s)) (indexed_policies l obj (world s)) = map Some ps \<and>
         replay l ps (world s) = (None, w1, []) \<and>
         map (role_delete (mem s)) (take k (indexed_roles l obj w1)) = map Some rs \<and>
         (\<forall>x. r = Return (x, None) \<longrightarrow>
            x = Some obj \<and> length (indexed_roles l obj w1) \<le> k \<and> replay l rs w1 = (None, world s', []))))"
proof -
  obtain policies err where lk: "policyIndexer_ByIndex l policyByPSPTParentAnnotationIndex (Name obj) (world s) = (policies, err)"
    by (cases "policyIndexer_ByIndex l policyByPSPTParentAnnotationIndex (Name obj) (world s)")
  let ?s1 = "s\<lparr>calls := calls s @ [policy_lookup obj]\<rparr>"
  have ip: "indexed_policies l obj (world s) = policies" by (simp add: indexed_policies_def lk)
  show ?thesis
  proof (cases err)
    case (Some e)
    with run lk have "r = Return (None, Some (Errorf ''error getting policies: %v'' e))" "s' = ?s1"
      by (simp_all add: Remove_def policy_lookup_def)
    then show ?thesis by (intro conjI disjI1 exI[of _ 0] exI[of _ "[]"]) simp_all
  next
    case None
    obtain r1 s2 where l1: "Remove_policies_loop l policies ?s1 = (r1, s2)"
      by (cases "Remove_policies_loop l policies ?s1")
    from Remove_policies_loop_trace[OF l1] obtain k ps where
      p: "mem s2 = mem s" "calls s2 = calls s @ policy_lookup obj # ps"
         "map (policy_delete (mem s)) (take k policies) = map Some ps"
         "r1 = None \<longrightarrow> length policies \<le> k"
         "replay l ps (world s) = (case r1 of None \<Rightarrow> None | Some res \<Rightarrow> error_of res, world s2, [])"
         "\<forall>x e. r1 = Some (Return (x, e)) \<longrightarrow> x = None \<and> e \<noteq> None"
      by auto
    show ?thesis
    proof (cases r1)
      case (Some res)
      with run lk None l1 have rs: "r = res" "s' = s2" by (simp_all add: Remove_def policy_lookup_def)
      from p(6) Some have "\<forall>x. res \<noteq> Return (x, None)" by auto
      with rs p ip show ?thesis by (intro conjI disjI1 exI[of _ k] exI[of _ ps]) simp_all
    next
      case None
      note r1 = this
      with p have full: "map (policy_delete (mem s)) policies = map Some ps"
        and rp: "replay l ps (world s) = (None, world s2, [])" by simp_all
      obtain roles err2 where lk2:
        "clusterRoleIndexer_ByIndex l clusterRoleByPSPTNameIndex (Name obj) (world s2) = (roles, err2)"
        by (cases "clusterRoleIndexer_ByIndex l clusterRoleByPSPTNameIndex (Name obj) (world s2)")
      have ir: "indexed_roles l obj (world s2) = roles" by (simp add: indexed_roles_def lk2)
      let ?s3 = "s2\<lparr>calls := calls s2 @ [role_lookup obj]\<rparr>"
      show ?thesis
      proof (cases err2)
        case (Some e)
        with run lk \<open>err = None\<close> l1 r1 lk2
        have "r = Return (None, Some (Errorf ''error getting cluster roles: %v'' e))" "s' = ?s3"
          by (simp_all add: Remove_def policy_lookup_def role_lookup_def)
        with p full rp ip show ?thesis
          by (intro conjI disjI2 exI[of _ 0] exI[of _ ps] exI[of _ "[]"] exI[of _ "world s2"]) simp_all
      next
        case None
        obtain r2 s4 where l2: "Remove_clusterRoles_loop l roles ?s3 = (r2, s4)"
          by (cases "Remove_clusterRoles_loop l roles ?s3")
        from Remove_clusterRoles_loop_trace[OF l2] p obtain j rs where
          q: "mem s4 = mem s" "calls s4 = calls s @ policy_lookup obj # ps @ role_lookup obj # rs"
             "map (role_delete (mem s)) (take j roles) = map Some rs"
             "r2 = None \<longrightarrow> length roles \<le> j"
             "replay l rs (world s2) = (case r2 of None \<Rightarrow> None | Some res \<Rightarrow> error_of res, world s4, [])"
             "\<forall>x e. r2 = Some (Return (x, e)) \<longrightarrow> x = None \<and> e \<noteq> None"
          by auto
        have res: "s' = s4 \<and> (\<forall>x. r = Return (x, None) \<longrightarrow> x = Some obj \<and> r2 = None)"
          using run lk \<open>err = None\<close> l1 r1 lk2 None l2 q(6)
          by (cases r2) (auto simp: Remove_def policy_lookup_def role_lookup_def)
        with q full rp ip ir show ?thesis
          by (intro conjI disjI2 exI[of _ j] exI[of _ ps] exI[of _ rs] exI[of _ "world s2"]) auto
      qed
    qed
  qed
qed

lemma Remove_replay:
  assumes run: "Remove l obj s = (r, s')"
  shows "\<exists>cs. calls s' = calls s @ cs \<and> replay l cs (world s) = (error_of r, world s', []) \<and>
              (error_of r \<noteq> None \<longrightarrow> object_of r = None)"
proof -
  obtain policies err where lk: "policyIndexer_ByIndex l policyByPSPTParentAnnotationIndex (Name obj) (world s) = (policies, err)"
    by (cases "policyIndexer_ByIndex l policyByPSPTParentAnnotationIndex (Name obj) (world s)")
  let ?s1 = "s\<lparr>calls := calls s @ [policy_lookup obj]\<rparr>"
  show ?thesis
  proof (cases err)
    case (Some e)
    with run lk have "r = Return (None, Some (Errorf ''error getting policies: %v'' e))" "s' = ?s1"
      by (simp_all add: Remove_def policy_lookup_def)
    with lk Some show ?thesis by (intro exI[of _ "[policy_lookup obj]"]) (simp add: policy_lookup_def)
  next
    case None
    obtain r1 s2 where l1: "Remove_policies_loop l policies ?s1 = (r1, s2)"
      by (cases "Remove_policies_loop l policies ?s1")
    from Remove_policies_loop_trace[OF l1] obtain ps where
      p: "calls s2 = calls s @ policy_lookup obj # ps"
         "replay l ps (world s) = (case r1 of None \<Rightarrow> None | Some res \<Rightarrow> error_of res, world s2, [])"
         "\<forall>x e. r1 = Some (Return (x, e)) \<longrightarrow> x = None \<and> e \<noteq> None"
      by auto
    have first: "replay l (policy_lookup obj # ps) (world s) =
        (case r1 of None \<Rightarrow> None | Some res \<Rightarrow> error_of res, world s2, [])"
      using lk None p(2) by (simp add: policy_lookup_def)
    show ?thesis
    proof (cases r1)
      case (Some res)
      with run lk None l1 have rs: "r = res" "s' = s2" by (simp_all add: Remove_def policy_lookup_def)
      from p(3) Some have "error_of res \<noteq> None \<longrightarrow> object_of res = None"
        by (cases res) auto
      with rs p(1) first Some show ?thesis by (intro exI[of _ "policy_lookup obj # ps"]) simp
    next
      case None
      note r1 = this
      obtain roles err2 where lk2:
        "clusterRoleIndexer_ByIndex l clusterRoleByPSPTNameIndex (Name obj) (world s2) = (roles, err2)"
        by (cases "clusterRoleIndexer_ByIndex l clusterRoleByPSPTNameIndex (Name obj) (world s2)")
      let ?s3 = "s2\<lparr>calls := calls s2 @ [role_lookup obj]\<rparr>"
      show ?thesis
      proof (cases err2)
        case (Some e)
        with run lk \<open>err = None\<close> l1 r1 lk2
        have "r = Return (None, Some (Errorf ''error getting cluster roles: %v'' e))" "s' = ?s3"
          by (simp_all add: Remove_def policy_lookup_def role_lookup_def)
        with p(1) first r1 lk2 Some show ?thesis
          by (intro exI[of _ "(policy_lookup obj # ps) @ [role_lookup obj]"])
             (simp add: replay_append role_lookup_def del: replay.simps(2) append_Cons, simp)
      next
        case None
        obtain r2 s4 where l2: "Remove_clusterRoles_loop l roles ?s3 = (r2, s4)"
          by (cases "Remove_clusterRoles_loop l roles ?s3")
        from Remove_clusterRoles_loop_trace[OF l2] p(1) obtain rs where
          q: "calls s4 = calls s @ (policy_lookup obj # ps) @ role_lookup obj # rs"
             "replay l rs (world s2) = (case r2 of None \<Rightarrow> None | Some res \<Rightarrow> error_of res, world s4, [])"
             "\<forall>x e. r2 = Some (Return (x, e)) \<longrightarrow> x = None \<and> e \<noteq> None"
          by auto
        have second: "replay l (role_lookup obj # rs) (world s2) =
            (case r2 of None \<Rightarrow> None | Some res \<Rightarrow> error_of res, world s4, [])"
          using lk2 None q(2) by (simp add: role_lookup_def)
        have res: "s' = s4 \<and> error_of r = (case r2 of None \<Rightarrow> None | Some res \<Rightarrow> error_of res) \<and>
                   (error_of r \<noteq> None \<longrightarrow> object_of r = None)"
          using run lk \<open>err = None\<close> l1 r1 lk2 None l2 q(3)
          by (cases r2; cases "the r2") (auto simp: Remove_def policy_lookup_def role_lookup_def)
        have "replay l ((policy_lookup obj # ps) @ role_lookup obj # rs) (world s) =
            (case r2 of None \<Rightarrow> None | Some res \<Rightarrow> error_of res, world s4, [])"
          unfolding replay_append first r1 using second by simp
        with res q(1) show ?thesis
          by (intro exI[of _ "(policy_lookup obj # ps) @ role_lookup obj # rs"]) simp
      qed
    qed
  qed
qed

lemma Updated_replay:
  assumes run: "Updated l va obj s = (r, s')"
  shows "\<exists>cs. calls s' = calls s @ cs \<and> replay l cs (world s) = (error_of r, world s', []) \<and>
              (error_of r \<noteq> None \<longrightarrow> object_of r = None)"
proof -
  obtain policies err where lk: "policyIndexer_ByIndex l policyByPSPTParentAnnotationIndex (Name obj) (world s) = (policies, err)"
    by (cases "policyIndexer_ByIndex l policyByPSPTParentAnnotationIndex (Name obj) (world s)")
  let ?s1 = "s\<lparr>calls := calls s @ [policy_lookup obj]\<rparr>"
  show ?thesis
  proof (cases err)
    case (Some e)
    with run lk have "r = Return (None, Some (Errorf ''error getting policies: %v'' e))" "s' = ?s1"
      by (simp_all add: Updated_def policy_lookup_def)
    with lk Some show ?thesis by (intro exI[of _ "[policy_lookup obj]"]) (simp add: policy_lookup_def)
  next
    case None
    obtain r1 s2 where l1: "Updated_loop l va obj policies ?s1 = (r1, s2)"
      by (cases "Updated_loop l va obj policies ?s1")
    from Updated_loop_replay[OF l1] obtain ps where
      p: "calls s2 = calls s @ policy_lookup obj # ps"
         "replay l ps (world s) = (case r1 of None \<Rightarrow> None | Some res \<Rightarrow> error_of res, world s2, [])"
         "\<forall>x e. r1 = Some (Return (x, e)) \<longrightarrow> x = None \<and> e \<noteq> None"
      by auto
    have first: "replay l (policy_lookup obj # ps) (world s) =
        (case r1 of None \<Rightarrow> None | Some res \<Rightarrow> error_of res, world s2, [])"
      using lk None p(2) by (simp add: policy_lookup_def)
    have res: "s' = s2 \<and> error_of r = (case r1 of None \<Rightarrow> None | Some res \<Rightarrow> error_of res) \<and>
               (error_of r \<noteq> None \<longrightarrow> object_of r = None)"
      using run lk None l1 p(3)
      by (cases r1; cases "the r1") (auto simp: Updated_def policy_lookup_def)
    with p(1) first show ?thesis by (intro exI[of _ "policy_lookup obj # ps"]) simp
  qed
qed


lemma stale_set:
  "q \<in> set (stale va obj h raws) \<longleftrightarrow>
     (\<exists>a p. PolicyPtr a \<in> set raws \<and> policiesH h a = Some p \<and>
            mapIndex (mapsH h) (Annotations p) va \<noteq> ResourceVersion obj \<and> q = snapshot h p)"
proof (induction raws)
  case Nil
  show ?case by simp
next
  case (Cons raw rest)
  show ?case
  proof (cases raw)
    case (PolicyPtr a)
    with Cons show ?thesis by (cases "policiesH h a") auto
  qed (use Cons in auto)
qed

lemma Updated_loop_fresh:
  "\<forall>raw\<in>set raws. \<exists>a p. raw = PolicyPtr a \<and> policiesH (mem s) a = Some p \<and>
        mapIndex (mapsH (mem s)) (Annotations p) va = ResourceVersion obj \<Longrightarrow>
   Updated_loop l va obj raws s = (None, s)"
proof (induction raws)
  case Nil
  show ?case by simp
next
  case (Cons raw rest)
  then obtain a p where "raw = PolicyPtr a" "policiesH (mem s) a = Some p"
    "mapIndex (mapsH (mem s)) (Annotations p) va = ResourceVersion obj" by auto
  with Cons show ?case by (simp add: Updated_loop_skip)
qed

lemma Updated_loop_nonnil:
  "Updated_loop l va obj raws s = (r, s') \<Longrightarrow> r = None \<Longrightarrow> \<forall>raw\<in>set raws. allocated (mem s) raw \<Longrightarrow>
   \<forall>q\<in>set (stale va obj (mem s) raws). Annotations q \<noteq> None"
proof (induction rule: Updated_loop_run)
  case (written a p m rest s w' r s')
  let ?s1 = "after_update va obj p m w' s"
  have ag: "agree_below (nextAddr (mem s)) (mem s) (mem ?s1)" by (rule agree_below_after_update)
  have le: "nextAddr (mem s) \<le> nextAddr (mem ?s1)" by (simp add: after_update_def copied_def)
  from written.prems have rest: "\<forall>raw\<in>set rest. allocated (mem s) raw" by simp
  then have al1: "\<forall>raw\<in>set rest. allocated (mem ?s1) raw"
    using allocated_agree[OF _ ag le] by blast
  have st: "stale va obj (mem ?s1) rest = stale va obj (mem s) rest"
    using rest ag by (rule stale_agree)
  from written.IH[OF written.prems(1) al1] st written(1,2,3) show ?case
    by (simp add: snapshot_def)
qed simp_all

lemma Updated_unfold:
  assumes lk: "policyIndexer_ByIndex l policyByPSPTParentAnnotationIndex (Name obj) (world s) = (raws, None)"
    and run: "Updated l va obj s = (r, s')"
  obtains r1 where "Updated_loop l va obj raws (s\<lparr>calls := calls s @ [policy_lookup obj]\<rparr>) = (r1, s')"
    and "r = (case r1 of None \<Rightarrow> Return (Some obj, None) | Some res \<Rightarrow> res)"
proof -
  obtain r1 s2 where l1: "Updated_loop l va obj raws (s\<lparr>calls := calls s @ [policy_lookup obj]\<rparr>) = (r1, s2)"
    by (cases "Updated_loop l va obj raws (s\<lparr>calls := calls s @ [policy_lookup obj]\<rparr>)")
  with lk run have "s' = s2" "r = (case r1 of None \<Rightarrow> Return (Some obj, None) | Some res \<Rightarrow> res)"
    by (auto simp: Updated_def policy_lookup_def split: option.splits)
  with l1 that show thesis by simp
qed

lemma allocatedD:
  assumes "allocated h raw"
  obtains a p where "raw = PolicyPtr a" "a < nextAddr h" "policiesH h a = Some p"
    "\<forall>m. Annotations p = Some m \<longrightarrow> m < nextAddr h"
proof (cases raw)
  case (PolicyPtr a)
  with assms obtain p where "policiesH h a = Some p" by (cases "policiesH h a") (simp_all add: allocated_def)
  with assms PolicyPtr that show thesis by (cases "Annotations p") (simp_all add: allocated_def)
qed (use assms in \<open>simp_all add: allocated_def\<close>)

lemma policy_delete_shape:
  "map (policy_delete h) xs = map Some ps \<Longrightarrow> c \<in> set ps \<Longrightarrow> \<exists>n. c = Delete n"
proof -
  assume eq: "map (policy_delete h) xs = map Some ps" and c: "c \<in> set ps"
  from c have "Some c \<in> set (map Some ps)" by simp
  with eq have "Some c \<in> set (map (policy_delete h) xs)" by simp
  then obtain x where "policy_delete h x = Some c" by auto
  then show ?thesis by (cases x) auto
qed

lemma role_delete_shape:
  "map (role_delete h) xs = map Some rs \<Longrightarrow> c \<in> set rs \<Longrightarrow> \<exists>ns n. c = DeleteNamespaced ns n"
proof -
  assume eq: "map (role_delete h) xs = map Some rs" and c: "c \<in> set rs"
  from c have "Some c \<in> set (map Some rs)" by simp
  with eq have "Some c \<in> set (map (role_delete h) xs)" by simp
  then obtain x where "role_delete h x = Some c" by auto
  then show ?thesis by (cases x) auto
qed

section \<open>Create\<close>

text \<open>
  C4, as stated: \<^verbatim>\<open>Create\<close> returns the template unchanged.  It does not: in the scenario
  the object returned is not the template \<open>t1\<close>.
\<close>

theorem Create_returns_template_counterexample:
  "fst (Create memCluster t1 state1) \<noteq> Return (Some t1, None)"
  by (simp add: Create_def)

text \<open>
  C4, amended: \<^verbatim>\<open>Create\<close> is a no-op that returns the pair \<^verbatim>\<open>(nil, nil)\<close>: no object and
  no error.  It calls no collaborator and leaves memory and the outside state as they are.
\<close>

theorem Create_returns_nil:
  "Create l obj s = (Return (None, None), s)"
  by (simp add: Create_def)

section \<open>Keys returned by the index functions\<close>

lemma mapIndex_empty:
  "mapIndex mh r k = '''' \<longleftrightarrow> (case r of None \<Rightarrow> True | Some m \<Rightarrow> mh m k = None \<or> mh m k = Some '''')"
  by (auto simp: mapIndex_def split: option.splits)

text \<open>
  C5: each index function returns the one-element key sequence holding the value of the
  parent annotation when the object has the expected type and that value is not empty, and
  the empty sequence when the value is empty or the object has another type.  The value
  read is empty exactly when the annotations map is nil, the key is missing or the key maps
  to the empty string.  Whatever the input, an index function that returns never returns
  the empty key, returns at most one key and returns no error: an object without parent
  annotation is indexed under no key.
\<close>

theorem index_functions_keys:
  "(policiesH h a = Some p \<longrightarrow>
      policyByPSPTParentAnnotation pa h (PolicyPtr a) =
        Return (if mapIndex (mapsH h) (Annotations p) pa = '''' then []
                else [mapIndex (mapsH h) (Annotations p) pa], None)) \<and>
   ((\<forall>a. x \<noteq> PolicyPtr a) \<longrightarrow> policyByPSPTParentAnnotation pa h x = Return ([], None)) \<and>
   (policyByPSPTParentAnnotation pa h y = Return (ks, e) \<longrightarrow> '''' \<notin> set ks \<and> length ks \<le> 1 \<and> e = None) \<and>
   (rolesH h b = Some cr \<longrightarrow>
      clusterRoleByPSPTName pa h (ClusterRolePtr b) =
        Return (if mapIndex (mapsH h) (Annotations cr) pa = '''' then []
                else [mapIndex (mapsH h) (Annotations cr) pa], None)) \<and>
   ((\<forall>b. x' \<noteq> ClusterRolePtr b) \<longrightarrow> clusterRoleByPSPTName pa h x' = Return ([], None)) \<and>
   (clusterRoleByPSPTName pa h y' = Return (ks', e') \<longrightarrow> '''' \<notin> set ks' \<and> length ks' \<le> 1 \<and> e' = None) \<and>
   (mapIndex (mapsH h) r pa = '''' \<longleftrightarrow>
      (case r of None \<Rightarrow> True | Some m \<Rightarrow> mapsH h m pa = None \<or> mapsH h m pa = Some ''''))"
proof (intro conjI)
  show "(\<forall>a. x \<noteq> PolicyPtr a) \<longrightarrow> policyByPSPTParentAnnotation pa h x = Return ([], None)"
    by (cases x) (simp_all add: policyByPSPTParentAnnotation_def)
  show "(\<forall>b. x' \<noteq> ClusterRolePtr b) \<longrightarrow> clusterRoleByPSPTName pa h x' = Return ([], None)"
    by (cases x') (simp_all add: clusterRoleByPSPTName_def)
  show "policyByPSPTParentAnnotation pa h y = Return (ks, e) \<longrightarrow> '''' \<notin> set ks \<and> length ks \<le> 1 \<and> e = None"
    by (cases y) (auto simp: policyByPSPTParentAnnotation_def split: option.splits if_splits)
  show "clusterRoleByPSPTName pa h y' = Return (ks', e') \<longrightarrow> '''' \<notin> set ks' \<and> length ks' \<le> 1 \<and> e' = None"
    by (cases y') (auto simp: clusterRoleByPSPTName_def split: option.splits if_splits)
qed (simp_all add: policyByPSPTParentAnnotation_def clusterRoleByPSPTName_def mapIndex_empty)

text \<open>
  C5 on the scenario: the policy \<open>p2\<close> without annotations and a cluster role passed to the
  policy index function get no key, the policy \<open>p1\<close> and the role \<open>r1\<close> get the key \<open>t1\<close>.
\<close>

theorem index_functions_keys_witness:
  "policiesH heap2 4 = Some p2 \<and>
   policyByPSPTParentAnnotation ''parent'' heap2 (PolicyPtr 4) = Return ([], None) \<and>
   (\<forall>a. ClusterRolePtr 3 \<noteq> PolicyPtr a) \<and>
   policyByPSPTParentAnnotation ''parent'' heap2 (ClusterRolePtr 3) = Return ([], None) \<and>
   policyByPSPTParentAnnotation ''parent'' heap2 (PolicyPtr 1) = Return ([''t1''], None) \<and>
   rolesH heap2 3 = Some r1 \<and>
   clusterRoleByPSPTName ''parent'' heap2 (ClusterRolePtr 3) = Return ([''t1''], None) \<and>
   (\<forall>b. OtherValue \<noteq> ClusterRolePtr b) \<and>
   clusterRoleByPSPTName ''parent'' heap2 OtherValue = Return ([], None) \<and>
   mapIndex (mapsH heap2) None ''parent'' = ''''"
  using index_functions_keys[of heap2 4 p2 "''parent''" "ClusterRolePtr 3" "PolicyPtr 1" "[''t1'']" None
          3 r1 OtherValue "ClusterRolePtr 3" "[''t1'']" None None]
  by (simp add: heap2_def p2_def scenario_defs mapIndex_def policyByPSPTParentAnnotation_def
        clusterRoleByPSPTName_def)

section \<open>Updated\<close>

text \<open>
  C1: let the lookup of the policy index under the template's name return policies that
  were in memory before the invocation, and let \<^verbatim>\<open>Updated\<close> return without error.  Then it
  returns the template; the calls it made are the lookup followed by one \<^verbatim>\<open>Update\<close> for
  every returned policy whose source-version annotation differs from the template's
  version, in the order of the lookup result; the object written for such a policy is
  the policy with the template's spec and with the source-version annotation set to the
  template's version; and in a store that keeps what it accepts, the object under the
  policy's name then has the template's spec and version.
\<close>

theorem Updated_propagates:
  assumes lk: "policyIndexer_ByIndex l policyByPSPTParentAnnotationIndex (Name obj) (world s) = (raws, None)"
    and al: "\<forall>raw\<in>set raws. allocated (mem s) raw"
    and run: "Updated l va obj s = (Return (x, None), s')"
  shows "x = Some obj \<and>
    new_calls s s' = policy_lookup obj # map (\<lambda>q. Update (synced va obj q)) (stale va obj (mem s) raws) \<and>
    (\<forall>a p. PolicyPtr a \<in> set raws \<longrightarrow> policiesH (mem s) a = Some p \<longrightarrow>
       mapIndex (mapsH (mem s)) (Annotations p) va \<noteq> ResourceVersion obj \<longrightarrow>
         Update (synced va obj (snapshot (mem s) p)) \<in> set (new_calls s s') \<and>
         converged va obj (synced va obj (snapshot (mem s) p)) \<and>
         (store_contract l stored \<longrightarrow>
            (\<exists>q. stored (world s') (Name p) = Some q \<and> converged va obj q)))"
proof -
  let ?s1 = "s\<lparr>calls := calls s @ [policy_lookup obj]\<rparr>"
  from Updated_unfold[OF lk run] obtain r1 where
    l1: "Updated_loop l va obj raws ?s1 = (r1, s')"
    and r: "Return (x, None) = (case r1 of None \<Rightarrow> Return (Some obj, None) | Some res \<Rightarrow> res)"
    by blast
  from Updated_loop_replay[OF l1] have "\<forall>y e. r1 = Some (Return (y, e)) \<longrightarrow> y = None \<and> e \<noteq> None"
    by blast
  with r have r1: "r1 = None" and x: "x = Some obj" by (cases r1; auto)+
  from al have al1: "\<forall>raw\<in>set raws. allocated (mem ?s1) raw" by simp
  from Updated_loop_trace[OF l1 al1] r1
  have "calls s' = calls s @ policy_lookup obj # map (\<lambda>q. Update (synced va obj q)) (stale va obj (mem s) raws)"
    by auto
  then have nc: "new_calls s s' = policy_lookup obj # map (\<lambda>q. Update (synced va obj q)) (stale va obj (mem s) raws)"
    by (simp add: new_calls_def)
  have nn: "\<forall>q\<in>set (stale va obj (mem s) raws). Annotations q \<noteq> None"
    using Updated_loop_nonnil[OF l1 r1 al1] by simp
  have each: "Update (synced va obj (snapshot (mem s) p)) \<in> set (new_calls s s') \<and>
         converged va obj (synced va obj (snapshot (mem s) p)) \<and>
         (store_contract l stored \<longrightarrow>
            (\<exists>q. stored (world s') (Name p) = Some q \<and> converged va obj q))"
    if "PolicyPtr a \<in> set raws" "policiesH (mem s) a = Some p"
       "mapIndex (mapsH (mem s)) (Annotations p) va \<noteq> ResourceVersion obj" for a p
  proof -
    from that have mem: "snapshot (mem s) p \<in> set (stale va obj (mem s) raws)"
      by (auto simp: stale_set)
    with nc have 1: "Update (synced va obj (snapshot (mem s) p)) \<in> set (new_calls s s')" by simp
    from mem nn have "Annotations (snapshot (mem s) p) \<noteq> None" by blast
    then have 2: "converged va obj (synced va obj (snapshot (mem s) p))"
      by (auto simp: converged_def synced_def)
    have 3: "\<exists>q. stored (world s') (Name p) = Some q \<and> converged va obj q" if sc: "store_contract l stored"
    proof (rule Updated_loop_store[OF l1 r1 sc al1])
      from mem have "\<exists>q\<in>set (stale va obj (mem s) raws). Name q = Name p"
        by (intro bexI[of _ "snapshot (mem s) p"]) (simp_all add: snapshot_def)
      then show "(\<exists>q\<in>set (stale va obj (mem ?s1) raws). Name q = Name p) \<or>
        (\<exists>q. stored (world ?s1) (Name p) = Some q \<and> converged va obj q)" by simp
    qed
    from 1 2 3 show ?thesis by blast
  qed
  from x nc each show ?thesis by blast
qed

text \<open>The in-memory store behaves as a store is expected to.\<close>

lemma memCluster_contract: "store_contract memCluster policyStore"
  by (auto simp: store_contract_def memCluster_def split: if_splits)

text \<open>
  C1 on the scenario: \<^verbatim>\<open>Updated\<close> of \<open>t1\<close> finds \<open>p1\<close> at source version 4, writes the copy
  with spec and version of \<open>t1\<close>, returns \<open>t1\<close>, and the store then holds that copy.
\<close>

theorem Updated_propagates_witness:
  "policyIndexer_ByIndex memCluster policyByPSPTParentAnnotationIndex (Name t1) (world state1) = ([PolicyPtr 1], None) \<and>
   allocated (mem state1) (PolicyPtr 1) \<and>
   Updated memCluster ''version'' t1 state1 = (Return (Some t1, None), state1_updated) \<and>
   PolicyPtr 1 \<in> set [PolicyPtr 1] \<and> policiesH (mem state1) 1 = Some p1 \<and>
   mapIndex (mapsH (mem state1)) (Annotations p1) ''version'' \<noteq> ResourceVersion t1 \<and>
   store_contract (memCluster :: (bool, bool cluster) Lifecycle) policyStore \<and>
   new_calls state1 state1_updated = [policy_lookup t1, Update p1_written] \<and>
   synced ''version'' t1 (snapshot (mem state1) p1) = p1_written \<and>
   converged ''version'' t1 p1_written \<and>
   (\<exists>q. policyStore (world state1_updated) (Name p1) = Some q \<and> converged ''version'' t1 q)"
proof -
  have h1: "policyIndexer_ByIndex memCluster policyByPSPTParentAnnotationIndex (Name t1) (world state1) = ([PolicyPtr 1], None)"
    by (simp add: scenario_defs)
  have h2: "\<forall>raw\<in>set [PolicyPtr 1]. allocated (mem state1) raw"
    by (simp add: scenario_defs allocated_def)
  have h3: "Updated memCluster ''version'' t1 state1 = (Return (Some t1, None), state1_updated)"
    unfolding state1_updated_def
    by (rule prod_eqI) (simp_all add: scenario_defs model_defs Updated_loop.simps(2))
  have h4: "policiesH (mem state1) 1 = Some p1" by (simp add: scenario_defs)
  have h5: "mapIndex (mapsH (mem state1)) (Annotations p1) ''version'' \<noteq> ResourceVersion t1"
    by (simp add: scenario_defs mapIndex_def)
  have h6: "synced ''version'' t1 (snapshot (mem state1) p1) = p1_written"
    by (simp add: scenario_defs synced_def snapshot_def p1_written_def)
  have h7: "store_contract (memCluster :: (bool, bool cluster) Lifecycle) policyStore"
    by (rule memCluster_contract)
  have h8: "allocated (mem state1) (PolicyPtr 1)" using h2 by simp
  from Updated_propagates[OF h1 h2 h3, of policyStore] h1 h8 h3 h4 h5 h6 h7
  show ?thesis by auto
qed


text \<open>
  C2, as stated: two calls of \<^verbatim>\<open>Updated\<close> in succession for an unchanged template perform
  no write on the second call.  In the scenario the cache is not refreshed between the
  calls; both calls succeed and the second call writes \<open>p1\<close> again.
\<close>

theorem Updated_twice_counterexample:
  "Updated memCluster ''version'' t1 state1 = (Return (Some t1, None), state1_updated) \<and>
   fst (Updated memCluster ''version'' t1 state1_updated) = Return (Some t1, None) \<and>
   new_calls state1_updated (snd (Updated memCluster ''version'' t1 state1_updated)) =
     [policy_lookup t1, Update p1_written]"
  unfolding state1_updated_def
  by (simp add: scenario_defs model_defs more_defs Updated_loop.simps(2) prod_eq_iff)

text \<open>
  C2, amended: the writes of \<^verbatim>\<open>Updated\<close> are guarded by the version stamp.  Every
  \<^verbatim>\<open>Update\<close> it issues is for a policy of the lookup result whose source-version annotation
  differs from the template's version; and when every policy of the lookup result carries
  the template's version (as on a second call whose lookup returns the policies written by
  the first), \<^verbatim>\<open>Updated\<close> issues the lookup and nothing else, returns the template, and
  leaves memory and the outside state as they are.
\<close>

theorem Updated_version_guard:
  assumes lk: "policyIndexer_ByIndex l policyByPSPTParentAnnotationIndex (Name obj) (world s) = (raws, None)"
    and al: "\<forall>raw\<in>set raws. allocated (mem s) raw"
    and run: "Updated l va obj s = (r, s')"
  shows "(\<forall>q. Update q \<in> set (new_calls s s') \<longrightarrow>
            (\<exists>a p. PolicyPtr a \<in> set raws \<and> policiesH (mem s) a = Some p \<and>
                   mapIndex (mapsH (mem s)) (Annotations p) va \<noteq> ResourceVersion obj \<and>
                   q = synced va obj (snapshot (mem s) p))) \<and>
         ((\<forall>a p. PolicyPtr a \<in> set raws \<longrightarrow> policiesH (mem s) a = Some p \<longrightarrow>
                  mapIndex (mapsH (mem s)) (Annotations p) va = ResourceVersion obj) \<longrightarrow>
            r = Return (Some obj, None) \<and> s' = s\<lparr>calls := calls s @ [policy_lookup obj]\<rparr>)"
proof (intro conjI allI impI)
  let ?s1 = "s\<lparr>calls := calls s @ [policy_lookup obj]\<rparr>"
  from Updated_unfold[OF lk run] obtain r1 where
    l1: "Updated_loop l va obj raws ?s1 = (r1, s')"
    and r: "r = (case r1 of None \<Rightarrow> Return (Some obj, None) | Some res \<Rightarrow> res)"
    by blast
  from al have al1: "\<forall>raw\<in>set raws. allocated (mem ?s1) raw" by simp
  from Updated_loop_trace[OF l1 al1] obtain k where
    "calls s' = calls s @ policy_lookup obj # map (\<lambda>q. Update (synced va obj q)) (take k (stale va obj (mem s) raws))"
    by auto
  then have nc: "new_calls s s' = policy_lookup obj # map (\<lambda>q. Update (synced va obj q)) (take k (stale va obj (mem s) raws))"
    by (simp add: new_calls_def)
  {
    fix q assume "Update q \<in> set (new_calls s s')"
    with nc obtain q0 where "q0 \<in> set (take k (stale va obj (mem s) raws))" "q = synced va obj q0"
      by (auto simp: policy_lookup_def)
    then have "q0 \<in> set (stale va obj (mem s) raws)" "q = synced va obj q0"
      by (auto dest: in_set_takeD)
    then show "\<exists>a p. PolicyPtr a \<in> set raws \<and> policiesH (mem s) a = Some p \<and>
                   mapIndex (mapsH (mem s)) (Annotations p) va \<noteq> ResourceVersion obj \<and>
                   q = synced va obj (snapshot (mem s) p)"
      by (auto simp: stale_set)
  }
  {
    assume fresh: "\<forall>a p. PolicyPtr a \<in> set raws \<longrightarrow> policiesH (mem s) a = Some p \<longrightarrow>
                  mapIndex (mapsH (mem s)) (Annotations p) va = ResourceVersion obj"
    have "\<forall>raw\<in>set raws. \<exists>a p. raw = PolicyPtr a \<and> policiesH (mem ?s1) a = Some p \<and>
        mapIndex (mapsH (mem ?s1)) (Annotations p) va = ResourceVersion obj"
    proof
      fix raw assume in_raws: "raw \<in> set raws"
      with al have "allocated (mem s) raw" by simp
      then obtain a p where "raw = PolicyPtr a" "policiesH (mem s) a = Some p"
        by (rule allocatedD)
      with fresh in_raws show "\<exists>a p. raw = PolicyPtr a \<and> policiesH (mem ?s1) a = Some p \<and>
        mapIndex (mapsH (mem ?s1)) (Annotations p) va = ResourceVersion obj" by auto
    qed
    from Updated_loop_fresh[OF this] l1 r
    show "r = Return (Some obj, None)" "s' = s\<lparr>calls := calls s @ [policy_lookup obj]\<rparr>"
      by simp_all
  }
qed

text \<open>
  C2 amended, on the scenario: with \<open>p1\<close> at source version 5 nothing is written; with
  \<open>p1\<close> at source version 4 the one write issued is the one for \<open>p1\<close>.
\<close>

theorem Updated_version_guard_witness:
  "policyIndexer_ByIndex memCluster policyByPSPTParentAnnotationIndex (Name t1) (world state_synced) = ([PolicyPtr 1], None) \<and>
   allocated (mem state_synced) (PolicyPtr 1) \<and>
   policiesH (mem state_synced) 1 = Some p1 \<and>
   mapIndex (mapsH (mem state_synced)) (Annotations p1) ''version'' = ResourceVersion t1 \<and>
   Updated memCluster ''version'' t1 state_synced =
     (Return (Some t1, None), state_synced\<lparr>calls := calls state_synced @ [policy_lookup t1]\<rparr>) \<and>
   policyIndexer_ByIndex memCluster policyByPSPTParentAnnotationIndex (Name t1) (world state1) = ([PolicyPtr 1], None) \<and>
   allocated (mem state1) (PolicyPtr 1) \<and>
   Updated memCluster ''version'' t1 state1 = (Return (Some t1, None), state1_updated) \<and>
   Update p1_written \<in> set (new_calls state1 state1_updated) \<and>
   (\<exists>a p. PolicyPtr a \<in> set [PolicyPtr 1] \<and> policiesH (mem state1) a = Some p \<and>
          mapIndex (mapsH (mem state1)) (Annotations p) ''version'' \<noteq> ResourceVersion t1 \<and>
          p1_written = synced ''version'' t1 (snapshot (mem state1) p))"
proof -
  have h1: "policyIndexer_ByIndex memCluster policyByPSPTParentAnnotationIndex (Name t1) (world state_synced) = ([PolicyPtr 1], None)"
    by (simp add: scenario_defs state_synced_def)
  have h2: "\<forall>raw\<in>set [PolicyPtr 1]. allocated (mem state_synced) raw"
    by (simp add: scenario_defs state_synced_def allocated_def)
  have h3: "\<forall>a p. PolicyPtr a \<in> set [PolicyPtr 1] \<longrightarrow> policiesH (mem state_synced) a = Some p \<longrightarrow>
          mapIndex (mapsH (mem state_synced)) (Annotations p) ''version'' = ResourceVersion t1"
    by (simp add: scenario_defs state_synced_def mapIndex_def)
  have h4: "Updated memCluster ''version'' t1 state_synced =
      (fst (Updated memCluster ''version'' t1 state_synced), snd (Updated memCluster ''version'' t1 state_synced))"
    by simp
  have g1: "policyIndexer_ByIndex memCluster policyByPSPTParentAnnotationIndex (Name t1) (world state1) = ([PolicyPtr 1], None)"
    by (simp add: scenario_defs)
  have g2: "\<forall>raw\<in>set [PolicyPtr 1]. allocated (mem state1) raw"
    by (simp add: scenario_defs allocated_def)
  have g3: "Updated memCluster ''version'' t1 state1 = (Return (Some t1, None), state1_updated)"
    unfolding state1_updated_def
    by (rule prod_eqI) (simp_all add: scenario_defs model_defs Updated_loop.simps(2))
  have g4: "Update p1_written \<in> set (new_calls state1 state1_updated)"
    unfolding state1_updated_def
    by (simp add: scenario_defs model_defs more_defs Updated_loop.simps(2))
  from Updated_version_guard[OF h1 h2 h4] h3
  have a: "Updated memCluster ''version'' t1 state_synced =
     (Return (Some t1, None), state_synced\<lparr>calls := calls state_synced @ [policy_lookup t1]\<rparr>)"
    by (simp add: prod_eq_iff)
  from Updated_version_guard[OF g1 g2 g3] g4
  have b: "\<exists>a p. PolicyPtr a \<in> set [PolicyPtr 1] \<and> policiesH (mem state1) a = Some p \<and>
          mapIndex (mapsH (mem state1)) (Annotations p) ''version'' \<noteq> ResourceVersion t1 \<and>
          p1_written = synced ''version'' t1 (snapshot (mem state1) p)"
    by blast
  have k1: "allocated (mem state_synced) (PolicyPtr 1)" "allocated (mem state1) (PolicyPtr 1)"
    using h2 g2 by simp_all
  have k2: "policiesH (mem state_synced) 1 = Some p1"
    "mapIndex (mapsH (mem state_synced)) (Annotations p1) ''version'' = ResourceVersion t1"
    by (simp_all add: scenario_defs state_synced_def mapIndex_def)
  from h1 k1 k2 a g1 g3 g4 b show ?thesis by blast
qed

text \<open>
  C9: when every object returned by the policy lookup is one for which the policy index
  function returns a key, every such object is a policy with a non-nil annotations map, and
  \<^verbatim>\<open>Updated\<close> does not panic: neither the assignment to the annotations map of the copy nor
  the type assertion nor a dereference fails.
\<close>

theorem Updated_indexed_no_panic:
  assumes idx: "\<forall>raw\<in>set (indexed_policies l obj (world s)).
                  \<exists>k. policyByPSPTParentAnnotation pa (mem s) raw = Return ([k], None)"
  shows "(\<forall>raw\<in>set (indexed_policies l obj (world s)).
            \<exists>a p m. raw = PolicyPtr a \<and> policiesH (mem s) a = Some p \<and> Annotations p = Some m) \<and>
         (\<forall>c. fst (Updated l va obj s) \<noteq> Panic c)"
proof -
  have nonnil: "\<forall>raw\<in>set (indexed_policies l obj (world s)).
            \<exists>a p m. raw = PolicyPtr a \<and> policiesH (mem s) a = Some p \<and> Annotations p = Some m"
  proof
    fix raw assume "raw \<in> set (indexed_policies l obj (world s))"
    with idx obtain k where "policyByPSPTParentAnnotation pa (mem s) raw = Return ([k], None)" by blast
    then show "\<exists>a p m. raw = PolicyPtr a \<and> policiesH (mem s) a = Some p \<and> Annotations p = Some m"
      by (cases raw)
         (auto simp: policyByPSPTParentAnnotation_def mapIndex_def split: option.splits if_splits)
  qed
  obtain raws err where lk: "policyIndexer_ByIndex l policyByPSPTParentAnnotationIndex (Name obj) (world s) = (raws, err)"
    by (cases "policyIndexer_ByIndex l policyByPSPTParentAnnotationIndex (Name obj) (world s)")
  have "fst (Updated l va obj s) \<noteq> Panic c" for c
  proof (cases err)
    case (Some e)
    with lk show ?thesis by (simp add: Updated_def)
  next
    case None
    obtain r s' where run: "Updated l va obj s = (r, s')" by (cases "Updated l va obj s")
    let ?s1 = "s\<lparr>calls := calls s @ [policy_lookup obj]\<rparr>"
    from Updated_unfold[OF lk[unfolded None] run] obtain r1 where
      l1: "Updated_loop l va obj raws ?s1 = (r1, s')"
      and r: "r = (case r1 of None \<Rightarrow> Return (Some obj, None) | Some res \<Rightarrow> res)"
      by blast
    from nonnil lk have "\<forall>raw\<in>set raws. \<exists>a q k. raw = PolicyPtr a \<and> policiesH (mem ?s1) a = Some q \<and> Annotations q = Some k"
      by (simp add: indexed_policies_def)
    from Updated_loop_no_panic[OF l1 this] have "r1 \<noteq> Some (Panic c)" .
    with r run show ?thesis by (cases r1) auto
  qed
  with nonnil show ?thesis by blast
qed

text \<open>C9 on the scenario: \<open>p1\<close> is indexed under \<open>t1\<close> and \<^verbatim>\<open>Updated\<close> does not panic.\<close>

theorem Updated_indexed_no_panic_witness:
  "indexed_policies memCluster t1 (world state1) = [PolicyPtr 1] \<and>
   policyByPSPTParentAnnotation ''parent'' (mem state1) (PolicyPtr 1) = Return ([''t1''], None) \<and>
   (\<forall>c. fst (Updated memCluster ''version'' t1 state1) \<noteq> Panic c)"
proof -
  have h: "\<forall>raw\<in>set (indexed_policies memCluster t1 (world state1)).
       \<exists>k. policyByPSPTParentAnnotation ''parent'' (mem state1) raw = Return ([k], None)"
    by (simp add: scenario_defs more_defs policyByPSPTParentAnnotation_def mapIndex_def)
  have "indexed_policies memCluster t1 (world state1) = [PolicyPtr 1]"
    "policyByPSPTParentAnnotation ''parent'' (mem state1) (PolicyPtr 1) = Return ([''t1''], None)"
    by (simp_all add: scenario_defs more_defs policyByPSPTParentAnnotation_def mapIndex_def)
  with Updated_indexed_no_panic[OF h, of "''version''"] show ?thesis by simp
qed

text \<open>
  C10: \<^verbatim>\<open>Updated\<close> changes no object that was in memory before the invocation.  Every
  policy struct and every annotations map below the allocation pointer is the same
  afterwards, the cluster roles are untouched, and a policy of the cache reads the same
  afterwards, field by field and annotation by annotation: the spec and the annotation are
  assigned to the copy only.
\<close>

theorem Updated_leaves_cache_objects:
  assumes run: "Updated l va obj s = (r, s')"
  shows "(a < nextAddr (mem s) \<longrightarrow>
            policiesH (mem s') a = policiesH (mem s) a \<and> mapsH (mem s') a = mapsH (mem s) a) \<and>
         rolesH (mem s') = rolesH (mem s) \<and>
         (allocated (mem s) (PolicyPtr b) \<longrightarrow> policiesH (mem s) b = Some p \<longrightarrow>
            policiesH (mem s') b = Some p \<and> snapshot (mem s') p = snapshot (mem s) p)"
proof -
  have ag: "agree_below (nextAddr (mem s)) (mem s) (mem s')"
  proof -
    obtain raws err where lk: "policyIndexer_ByIndex l policyByPSPTParentAnnotationIndex (Name obj) (world s) = (raws, err)"
      by (cases "policyIndexer_ByIndex l policyByPSPTParentAnnotationIndex (Name obj) (world s)")
    show ?thesis
    proof (cases err)
      case (Some e)
      with lk run show ?thesis by (auto simp: Updated_def agree_below_def)
    next
      case None
      let ?s1 = "s\<lparr>calls := calls s @ [policy_lookup obj]\<rparr>"
      from Updated_unfold[OF lk[unfolded None] run] obtain r1 where
        "Updated_loop l va obj raws ?s1 = (r1, s')" by blast
      from Updated_loop_frame[OF this] show ?thesis by simp
    qed
  qed
  have "policiesH (mem s') b = Some p \<and> snapshot (mem s') p = snapshot (mem s) p"
    if "allocated (mem s) (PolicyPtr b)" "policiesH (mem s) b = Some p"
  proof -
    from that(1) that(2) have b: "b < nextAddr (mem s)" and m: "\<forall>m. Annotations p = Some m \<longrightarrow> m < nextAddr (mem s)"
      by (auto elim!: allocatedD)
    from m ag have "map_option (mapsH (mem s')) (Annotations p) = map_option (mapsH (mem s)) (Annotations p)"
      by (cases "Annotations p") (simp_all add: agree_below_def)
    with b ag that show ?thesis by (simp add: agree_below_def snapshot_def)
  qed
  with ag show ?thesis by (simp add: agree_below_def)
qed

text \<open>
  C10 on the scenario: after an \<^verbatim>\<open>Updated\<close> that wrote the copy of \<open>p1\<close>, the cached \<open>p1\<close>
  and its annotations are as before.
\<close>

theorem Updated_leaves_cache_objects_witness:
  "Updated memCluster ''version'' t1 state1 = (Return (Some t1, None), state1_updated) \<and>
   (0::nat) < nextAddr (mem state1) \<and> allocated (mem state1) (PolicyPtr 1) \<and>
   policiesH (mem state1) 1 = Some p1 \<and>
   mapsH (mem state1_updated) 0 = p1_annotations \<and>
   policiesH (mem state1_updated) 1 = Some p1 \<and>
   snapshot (mem state1_updated) p1 = snapshot heap1 p1 \<and>
   Update p1_written \<in> set (calls state1_updated)"
proof -
  have h1: "Updated memCluster ''version'' t1 state1 = (Return (Some t1, None), state1_updated)"
    unfolding state1_updated_def
    by (rule prod_eqI) (simp_all add: scenario_defs model_defs Updated_loop.simps(2))
  have h2: "(0::nat) < nextAddr (mem state1)" "allocated (mem state1) (PolicyPtr 1)"
    "policiesH (mem state1) 1 = Some p1" "mapsH (mem state1) 0 = p1_annotations" "mem state1 = heap1"
    by (simp_all add: scenario_defs allocated_def)
  have h3: "Update p1_written \<in> set (calls state1_updated)"
    unfolding state1_updated_def
    by (simp add: scenario_defs model_defs more_defs Updated_loop.simps(2))
  from Updated_leaves_cache_objects[OF h1, of 0 1 p1] h1 h2 h3 show ?thesis by simp
qed


section \<open>Remove\<close>

text \<open>
  C3: when \<^verbatim>\<open>Remove\<close> returns without error it returns the template, and the calls it
  made are: the lookup of the policy index under the template's name; for every object of
  that lookup result, in order, the delete of the policy by its name, each answered without
  error; the lookup of the role index under the template's name; for every object of that
  lookup result, in order, the delete of the role by namespace and name, each answered
  without error.  When both lookups return nothing, \<^verbatim>\<open>Remove\<close> issues the two lookups and
  no delete, and returns the template.
\<close>

theorem Remove_cascades:
  "(Remove l obj s = (Return (x, None), s') \<longrightarrow>
      x = Some obj \<and> mem s' = mem s \<and>
      (\<exists>ps rs w1.
         new_calls s s' = policy_lookup obj # ps @ role_lookup obj # rs \<and>
         map (policy_delete (mem s)) (indexed_policies l obj (world s)) = map Some ps \<and>
         replay l ps (world s) = (None, w1, []) \<and>
         map (role_delete (mem s)) (indexed_roles l obj w1) = map Some rs \<and>
         replay l rs w1 = (None, world s', []))) \<and>
   (policyIndexer_ByIndex l policyByPSPTParentAnnotationIndex (Name obj) (world s) = ([], None) \<longrightarrow>
    clusterRoleIndexer_ByIndex l clusterRoleByPSPTNameIndex (Name obj) (world s) = ([], None) \<longrightarrow>
      Remove l obj s = (Return (Some obj, None), s\<lparr>calls := calls s @ [policy_lookup obj, role_lookup obj]\<rparr>))"
proof (intro conjI impI)
  assume run: "Remove l obj s = (Return (x, None), s')"
  from Remove_structure[OF run] obtain k ps rs w1 where
    st: "mem s' = mem s" "calls s' = calls s @ policy_lookup obj # ps @ role_lookup obj # rs"
        "map (policy_delete (mem s)) (indexed_policies l obj (world s)) = map Some ps"
        "replay l ps (world s) = (None, w1, [])"
        "map (role_delete (mem s)) (take k (indexed_roles l obj w1)) = map Some rs"
        "x = Some obj" "length (indexed_roles l obj w1) \<le> k" "replay l rs w1 = (None, world s', [])"
    by blast
  from st(2) have nc: "new_calls s s' = policy_lookup obj # ps @ role_lookup obj # rs"
    by (simp add: new_calls_def)
  from st(5,7) have "map (role_delete (mem s)) (indexed_roles l obj w1) = map Some rs" by simp
  with st nc show "x = Some obj" "mem s' = mem s"
    "\<exists>ps rs w1.
         new_calls s s' = policy_lookup obj # ps @ role_lookup obj # rs \<and>
         map (policy_delete (mem s)) (indexed_policies l obj (world s)) = map Some ps \<and>
         replay l ps (world s) = (None, w1, []) \<and>
         map (role_delete (mem s)) (indexed_roles l obj w1) = map Some rs \<and>
         replay l rs w1 = (None, world s', [])"
    by blast+
next
  assume "policyIndexer_ByIndex l policyByPSPTParentAnnotationIndex (Name obj) (world s) = ([], None)"
    "clusterRoleIndexer_ByIndex l clusterRoleByPSPTNameIndex (Name obj) (world s) = ([], None)"
  then show "Remove l obj s = (Return (Some obj, None), s\<lparr>calls := calls s @ [policy_lookup obj, role_lookup obj]\<rparr>)"
    by (simp add: Remove_def policy_lookup_def role_lookup_def)
qed

text \<open>
  C3 on the scenario: \<^verbatim>\<open>Remove\<close> of \<open>t1\<close> deletes \<open>p1\<close> and then \<open>r1\<close>; on the cluster in
  which nothing is left it issues the two lookups only.
\<close>

theorem Remove_cascades_witness:
  "Remove memCluster t1 state1 = (Return (Some t1, None), state1_removed) \<and>
   new_calls state1 state1_removed =
     [policy_lookup t1, Delete ''p1'', role_lookup t1, DeleteNamespaced ''ns'' ''r1''] \<and>
   (\<exists>ps rs w1.
         new_calls state1 state1_removed = policy_lookup t1 # ps @ role_lookup t1 # rs \<and>
         map (policy_delete (mem state1)) (indexed_policies memCluster t1 (world state1)) = map Some ps \<and>
         replay memCluster ps (world state1) = (None, w1, []) \<and>
         map (role_delete (mem state1)) (indexed_roles memCluster t1 w1) = map Some rs \<and>
         replay memCluster rs w1 = (None, world state1_removed, [])) \<and>
   policyIndexer_ByIndex memCluster policyByPSPTParentAnnotationIndex (Name t1) (world state_gone) = ([], None) \<and>
   clusterRoleIndexer_ByIndex memCluster clusterRoleByPSPTNameIndex (Name t1) (world state_gone) = ([], None) \<and>
   Remove memCluster t1 state_gone =
     (Return (Some t1, None), state_gone\<lparr>calls := calls state_gone @ [policy_lookup t1, role_lookup t1]\<rparr>)"
proof -
  have h1: "Remove memCluster t1 state1 = (Return (Some t1, None), state1_removed)"
    unfolding state1_removed_def
    by (rule prod_eqI) (simp_all add: scenario_defs model_defs)
  have h2: "new_calls state1 state1_removed =
     [policy_lookup t1, Delete ''p1'', role_lookup t1, DeleteNamespaced ''ns'' ''r1'']"
    unfolding state1_removed_def
    by (simp add: scenario_defs model_defs more_defs)
  have h3: "policyIndexer_ByIndex memCluster policyByPSPTParentAnnotationIndex (Name t1) (world state_gone) = ([], None)"
    "clusterRoleIndexer_ByIndex memCluster clusterRoleByPSPTNameIndex (Name t1) (world state_gone) = ([], None)"
    by (simp_all add: scenario_defs more_defs)
  note T1 = Remove_cascades[of memCluster t1 state1 "Some t1" state1_removed]
  note T2 = Remove_cascades[of memCluster t1 state_gone "Some t1" state_gone]
  from T1 h1 have a: "\<exists>ps rs w1.
         new_calls state1 state1_removed = policy_lookup t1 # ps @ role_lookup t1 # rs \<and>
         map (policy_delete (mem state1)) (indexed_policies memCluster t1 (world state1)) = map Some ps \<and>
         replay memCluster ps (world state1) = (None, w1, []) \<and>
         map (role_delete (mem state1)) (indexed_roles memCluster t1 w1) = map Some rs \<and>
         replay memCluster rs w1 = (None, world state1_removed, [])"
    by blast
  from T2 h3 have b: "Remove memCluster t1 state_gone =
     (Return (Some t1, None), state_gone\<lparr>calls := calls state_gone @ [policy_lookup t1, role_lookup t1]\<rparr>)"
    by blast
  from h1 h2 h3 a b show ?thesis by blast
qed

text \<open>
  C6: when \<^verbatim>\<open>Remove\<close> has issued a delete against the role store, whatever its result, the
  calls it made are the policy lookup, then the deletes of all policies of the lookup
  result, every one answered without error, then the role lookup, then deletes of roles
  only.  So no role is deleted before every indexed policy has been deleted, and a failed
  policy deletion means that no role deletion is issued at all.
\<close>

theorem Remove_policies_before_roles:
  assumes run: "Remove l obj s = (r, s')"
    and role: "DeleteNamespaced ns n \<in> set (new_calls s s')"
  shows "\<exists>ps rs. new_calls s s' = policy_lookup obj # ps @ role_lookup obj # rs \<and>
           map (policy_delete (mem s)) (indexed_policies l obj (world s)) = map Some ps \<and>
           fst (replay l ps (world s)) = None \<and>
           (\<forall>c\<in>set ps. \<exists>n'. c = Delete n') \<and>
           (\<forall>c\<in>set rs. \<exists>ns' n'. c = DeleteNamespaced ns' n')"
proof -
  from Remove_structure[OF run]
  consider (first) k ps where "calls s' = calls s @ policy_lookup obj # ps"
      "map (policy_delete (mem s)) (take k (indexed_policies l obj (world s))) = map Some ps"
    | (second) k ps rs w1 where "calls s' = calls s @ policy_lookup obj # ps @ role_lookup obj # rs"
      "map (policy_delete (mem s)) (indexed_policies l obj (world s)) = map Some ps"
      "replay l ps (world s) = (None, w1, [])"
      "map (role_delete (mem s)) (take k (indexed_roles l obj w1)) = map Some rs"
    by blast
  then show ?thesis
  proof cases
    case first
    from first(1) have "new_calls s s' = policy_lookup obj # ps" by (simp add: new_calls_def)
    with role have "DeleteNamespaced ns n \<in> set ps" by (simp add: policy_lookup_def)
    from policy_delete_shape[OF first(2) this] show ?thesis by simp
  next
    case second
    from second(1) have "new_calls s s' = policy_lookup obj # ps @ role_lookup obj # rs"
      by (simp add: new_calls_def)
    moreover have "\<forall>c\<in>set ps. \<exists>n'. c = Delete n'"
      using policy_delete_shape[OF second(2)] by blast
    moreover have "\<forall>c\<in>set rs. \<exists>ns' n'. c = DeleteNamespaced ns' n'"
      using role_delete_shape[OF second(4)] by blast
    ultimately show ?thesis using second(2,3) by auto
  qed
qed

text \<open>C6 on the scenario: the delete of \<open>r1\<close> comes after the delete of \<open>p1\<close>.\<close>

theorem Remove_policies_before_roles_witness:
  "Remove memCluster t1 state1 = (Return (Some t1, None), state1_removed) \<and>
   DeleteNamespaced ''ns'' ''r1'' \<in> set (new_calls state1 state1_removed) \<and>
   (\<exists>ps rs. new_calls state1 state1_removed = policy_lookup t1 # ps @ role_lookup t1 # rs \<and>
           map (policy_delete (mem state1)) (indexed_policies memCluster t1 (world state1)) = map Some ps \<and>
           fst (replay memCluster ps (world state1)) = None \<and>
           (\<forall>c\<in>set ps. \<exists>n'. c = Delete n') \<and>
           (\<forall>c\<in>set rs. \<exists>ns' n'. c = DeleteNamespaced ns' n'))"
proof -
  have h1: "Remove memCluster t1 state1 = (Return (Some t1, None), state1_removed)"
    unfolding state1_removed_def
    by (rule prod_eqI) (simp_all add: scenario_defs model_defs)
  have h2: "DeleteNamespaced ''ns'' ''r1'' \<in> set (new_calls state1 state1_removed)"
    unfolding state1_removed_def
    by (simp add: scenario_defs model_defs more_defs)
  from Remove_policies_before_roles[OF h1 h2] h1 h2 show ?thesis by blast
qed

text \<open>
  C7, as stated: a delete that reports that the object does not exist is taken as success
  and \<^verbatim>\<open>Remove\<close> goes on.  It does not: with \<open>p1\<close> gone from the store but still listed by
  the cache, the delete of \<open>p1\<close> reports \<open>NotFound\<close>, \<^verbatim>\<open>Remove\<close> returns that error wrapped,
  and the role \<open>r1\<close> is never deleted.
\<close>

theorem Remove_not_found_counterexample:
  "policyStore (world state_stale) ''p1'' = None \<and>
   perform memCluster (Delete ''p1'') (world state_stale) = (Some NotFound, world state_stale) \<and>
   fst (Remove memCluster t1 state_stale) =
     Return (None, Some (Errorf ''error deleting policy: %v'' NotFound)) \<and>
   new_calls state_stale (snd (Remove memCluster t1 state_stale)) = [policy_lookup t1, Delete ''p1''] \<and>
   (''ns'', ''r1'') \<in> roleStore (world (snd (Remove memCluster t1 state_stale)))"
  by (simp add: scenario_defs model_defs more_defs)

text \<open>
  C7, amended: during \<^verbatim>\<open>Remove\<close> a call that reports an error, whatever the error and so also
  the report that the object does not exist, ends the invocation: no further call is made
  and the error is returned, wrapped with the message of the failing step.  \<^verbatim>\<open>Remove\<close> goes
  on to the remaining deletions only after a call that reported no error.
\<close>

theorem Remove_delete_error_aborts:
  assumes run: "Remove l obj s = (r, s')"
    and calls: "new_calls s s' = cs @ c # rest"
    and before: "replay l cs (world s) = (None, w1, [])"
    and fails: "perform l c w1 = (Some e, w2)"
  shows "rest = [] \<and> world s' = w2 \<and> r = Return (None, Some (Errorf (format_of c) e)) \<and>
         (c = Delete n \<longrightarrow> r = Return (None, Some (Errorf ''error deleting policy: %v'' e))) \<and>
         (c = DeleteNamespaced ns n \<longrightarrow> r = Return (None, Some (Errorf ''error deleting cluster role: %v'' e)))"
proof -
  from Remove_replay[OF run] obtain ds where
    ds: "calls s' = calls s @ ds" "replay l ds (world s) = (error_of r, world s', [])"
        "error_of r \<noteq> None \<longrightarrow> object_of r = None" by blast
  with calls have "ds = cs @ c # rest" by (simp add: new_calls_def)
  with ds(2) before fails have "(Some (Errorf (format_of c) e), w2, rest) = (error_of r, world s', [])"
    by (simp add: replay_append)
  then have 1: "rest = []" "world s' = w2" "error_of r = Some (Errorf (format_of c) e)" by simp_all
  with ds(3) have "r = Return (None, Some (Errorf (format_of c) e))"
    by (cases r) auto
  with 1 show ?thesis by auto
qed

text \<open>C7 amended, on the scenario: the \<open>NotFound\<close> of the delete of \<open>p1\<close> ends \<^verbatim>\<open>Remove\<close>.\<close>

theorem Remove_delete_error_aborts_witness:
  "Remove memCluster t1 state_stale =
     (Return (None, Some (Errorf ''error deleting policy: %v'' NotFound)), snd (Remove memCluster t1 state_stale)) \<and>
   new_calls state_stale (snd (Remove memCluster t1 state_stale)) = [policy_lookup t1] @ Delete ''p1'' # [] \<and>
   replay memCluster [policy_lookup t1] (world state_stale) = (None, cluster_stale, []) \<and>
   perform memCluster (Delete ''p1'') cluster_stale = (Some NotFound, cluster_stale) \<and>
   world (snd (Remove memCluster t1 state_stale)) = cluster_stale"
proof -
  have h1: "Remove memCluster t1 state_stale =
     (fst (Remove memCluster t1 state_stale), snd (Remove memCluster t1 state_stale))" by simp
  have h2: "new_calls state_stale (snd (Remove memCluster t1 state_stale)) = [policy_lookup t1] @ Delete ''p1'' # []"
    by (simp add: scenario_defs model_defs more_defs)
  have h3: "replay memCluster [policy_lookup t1] (world state_stale) = (None, cluster_stale, [])"
    by (simp add: scenario_defs more_defs)
  have h4: "perform memCluster (Delete ''p1'') cluster_stale = (Some NotFound, cluster_stale)"
    by (simp add: scenario_defs more_defs)
  from Remove_delete_error_aborts[OF h1 h2 h3 h4, of "''p1''"] h2 h3 h4 show ?thesis
    by (simp add: prod_eq_iff)
qed

section \<open>Failures\<close>

text \<open>
  C8: for \<^verbatim>\<open>Updated\<close> and for \<^verbatim>\<open>Remove\<close>, replaying the calls of an invocation on the outside
  state it started from gives the error it returned and the outside state it ended in, and
  leaves no call unperformed.  By the definition of \<open>replay\<close> this says: every call but the
  last was answered without error; when a call (an index lookup, a policy write, a
  deletion) fails, it is the last call, the invocation returns its error wrapped with the
  message of that step and no object, and the effects of the calls before it stay; when no
  call fails, no error is returned.
\<close>

theorem failures_surface_and_abort:
  "(Updated l va obj s = (r, s') \<longrightarrow>
      calls s' = calls s @ new_calls s s' \<and>
      replay l (new_calls s s') (world s) = (error_of r, world s', []) \<and>
      (error_of r \<noteq> None \<longrightarrow> object_of r = None)) \<and>
   (Remove l obj2 s2 = (r2, s2') \<longrightarrow>
      calls s2' = calls s2 @ new_calls s2 s2' \<and>
      replay l (new_calls s2 s2') (world s2) = (error_of r2, world s2', []) \<and>
      (error_of r2 \<noteq> None \<longrightarrow> object_of r2 = None))"
  using Updated_replay[of l va obj s r s'] Remove_replay[of l obj2 s2 r2 s2']
  by (auto simp: new_calls_def)

text \<open>
  C8 on the scenario: with \<open>p1\<close> gone from the store, the write of \<^verbatim>\<open>Updated\<close> and the delete
  of \<^verbatim>\<open>Remove\<close> fail with \<open>NotFound\<close>; each invocation ends there and returns the error.
\<close>

theorem failures_surface_and_abort_witness:
  "Updated memCluster ''version'' t1 state_stale =
     (Return (None, Some (Errorf ''error updating psp: %v'' NotFound)),
      snd (Updated memCluster ''version'' t1 state_stale)) \<and>
   new_calls state_stale (snd (Updated memCluster ''version'' t1 state_stale)) =
     [policy_lookup t1, Update p1_written] \<and>
   replay memCluster [policy_lookup t1, Update p1_written] (world state_stale) =
     (Some (Errorf ''error updating psp: %v'' NotFound),
      world (snd (Updated memCluster ''version'' t1 state_stale)), []) \<and>
   Remove memCluster t1 state_stale =
     (Return (None, Some (Errorf ''error deleting policy: %v'' NotFound)),
      snd (Remove memCluster t1 state_stale)) \<and>
   new_calls state_stale (snd (Remove memCluster t1 state_stale)) = [policy_lookup t1, Delete ''p1''] \<and>
   replay memCluster [policy_lookup t1, Delete ''p1''] (world state_stale) =
     (Some (Errorf ''error deleting policy: %v'' NotFound),
      world (snd (Remove memCluster t1 state_stale)), [])"
proof -
  have h1: "Updated memCluster ''version'' t1 state_stale =
     (Return (None, Some (Errorf ''error updating psp: %v'' NotFound)),
      snd (Updated memCluster ''version'' t1 state_stale))"
    by (rule prod_eqI) (simp_all add: scenario_defs model_defs more_defs Updated_loop.simps(2))
  have h2: "new_calls state_stale (snd (Updated memCluster ''version'' t1 state_stale)) =
     [policy_lookup t1, Update p1_written]"
    by (simp add: scenario_defs model_defs more_defs Updated_loop.simps(2))
  have h3: "Remove memCluster t1 state_stale =
     (Return (None, Some (Errorf ''error deleting policy: %v'' NotFound)),
      snd (Remove memCluster t1 state_stale))"
    by (rule prod_eqI) (simp_all add: scenario_defs model_defs more_defs)
  have h4: "new_calls state_stale (snd (Remove memCluster t1 state_stale)) = [policy_lookup t1, Delete ''p1'']"
    by (simp add: scenario_defs model_defs more_defs)
  from failures_surface_and_abort[of memCluster "''version''" t1 state_stale
      "Return (None, Some (Errorf ''error updating psp: %v'' NotFound))"
      "snd (Updated memCluster ''version'' t1 state_stale)"
      t1 state_stale
      "Return (None, Some (Errorf ''error deleting policy: %v'' NotFound))"
      "snd (Remove memCluster t1 state_stale)"] h1 h2 h3 h4
  show ?thesis by simp
qed


end
